theory Spec2Isabelle
  imports Main "HOL-Library.Word" "HOL-Library.Sublist"
begin

unbundle bit_operations_syntax

section \<open>The binary IP-prefix trie of pkg/trie\<close>

text \<open>
  The Go package keeps one tree of nodes. Every node owns its children through a
  \<^verbatim>\<open>map[byte]*Node\<close>; no node is shared, so the pointer graph is a tree and is
  modelled as a datatype whose children are a partial map from bytes to nodes. An
  operation that mutates nodes along one path returns the rebuilt tree.
\<close>

subsection \<open>Data\<close>

type_synonym byte = "8 word"

text \<open>\<^verbatim>\<open>map[string]interface{}\<close>: an opaque payload the trie never reads.\<close>

type_synonym 'v metadata = "string \<rightharpoonup> 'v"

datatype 'v Node = Node
  (children: "byte \<rightharpoonup> 'v Node")
  (isEnd: bool)
  (metadata: "'v metadata")
  (cidr: string)

record 'v IPTrie =
  root :: "'v Node"

text \<open>
  The errors of the package are \<^verbatim>\<open>fmt.Errorf\<close> values told apart by their text;
  \<open>Panic\<close> is Go's run-time panic on a slice index out of range.
\<close>

datatype error =
    InvalidCIDR             \<comment> \<open>"invalid CIDR: ..."\<close>
  | InvalidIP               \<comment> \<open>"invalid IP address"\<close>
  | NoMatch                 \<comment> \<open>"no matching CIDR found"\<close>
  | CIDRNotFound            \<comment> \<open>"CIDR not found"\<close>
  | Panic                   \<comment> \<open>index out of range\<close>

text \<open>The node literal \<^verbatim>\<open>&Node{children: make(...), metadata: make(...)}\<close>.\<close>

definition newNode :: "'v Node" where
  "newNode = Node Map.empty False Map.empty []"

definition NewIPTrie :: "'v IPTrie" where
  "NewIPTrie = \<lparr> root = newNode \<rparr>"

subsection \<open>What the trie uses of Go's package net\<close>

text \<open>
  Package \<^verbatim>\<open>net\<close> belongs to Go's standard library, not to the repository.
  A \<^verbatim>\<open>net.IP\<close> is a byte slice (the nil slice is the empty list), a
  \<^verbatim>\<open>net.IPNet\<close> is an address and a mask. The two text parsers are parameters of
  the model: \<open>ParseCIDR\<close> gives the \<^verbatim>\<open>*IPNet\<close> result of \<^verbatim>\<open>net.ParseCIDR\<close>,
  \<open>ParseIP\<close> gives the result of \<^verbatim>\<open>net.ParseIP\<close>, and \<open>None\<close> is a rejected text.
  The small total functions \<^verbatim>\<open>To4\<close>, \<^verbatim>\<open>To16\<close>, \<^verbatim>\<open>IPMask.Size\<close>,
  \<^verbatim>\<open>CIDRMask\<close> and \<^verbatim>\<open>IP.Mask\<close> are written out as the library documents them.
\<close>

record IPNet =
  IP :: "byte list"
  Mask :: "byte list"

record netpkg =
  ParseCIDR :: "string \<Rightarrow> IPNet option"
  ParseIP :: "string \<Rightarrow> byte list option"

definition v4InV6Prefix :: "byte list" where
  "v4InV6Prefix = [0, 0, 0, 0, 0, 0, 0, 0, 0, 0, 0xff, 0xff]"

text \<open>
  \<^verbatim>\<open>To4\<close>: a 4-byte address is returned as it is, a 16-byte address that starts with
  the IPv4-in-IPv6 prefix gives its last four bytes, anything else is nil.
\<close>

definition To4 :: "byte list \<Rightarrow> byte list option" where
  "To4 ip =
     (if length ip = 4 then Some ip
      else if length ip = 16 \<and> take 12 ip = v4InV6Prefix then Some (drop 12 ip)
      else None)"

text \<open>
  \<^verbatim>\<open>To16\<close>: a 4-byte address is prefixed with the IPv4-in-IPv6 prefix, a 16-byte
  address is returned as it is, anything else is nil.
\<close>

definition To16 :: "byte list \<Rightarrow> byte list option" where
  "To16 ip =
     (if length ip = 4 then Some (v4InV6Prefix @ ip)
      else if length ip = 16 then Some ip
      else None)"

text \<open>The bit of \<open>b\<close> at position \<open>k\<close>, as the expression \<^verbatim>\<open>(b >> k) & 1\<close>.\<close>

definition bitOf :: "byte \<Rightarrow> nat \<Rightarrow> byte" where
  "bitOf b k = drop_bit k b AND 1"

text \<open>The bits of a byte slice, most significant bit of the first byte first.\<close>

definition bits :: "byte list \<Rightarrow> byte list" where
  "bits bs = map (\<lambda>i. bitOf (bs ! (i div 8)) (7 - i mod 8)) [0 ..< length bs * 8]"

text \<open>
  \<^verbatim>\<open>IPMask.Size\<close>: the number of leading ones and the number of bits of a mask in
  canonical form (ones followed by zeros); \<open>(0, 0)\<close> for any other mask.
\<close>

definition Size :: "byte list \<Rightarrow> nat \<times> nat" where
  "Size m =
     (let bs = bits m; n = length (takeWhile (\<lambda>b. b = 1) bs)
      in if list_all (\<lambda>b. b = 0) (drop n bs) then (n, length m * 8) else (0, 0))"

text \<open>\<^verbatim>\<open>CIDRMask(ones, bits)\<close> for \<open>ones \<le> bits\<close> and \<open>bits\<close> 32 or 128.\<close>

definition CIDRMask :: "nat \<Rightarrow> nat \<Rightarrow> byte list" where
  "CIDRMask ones nbits =
     map (\<lambda>j. if 8 * j + 8 \<le> ones then 0xff
              else if ones \<le> 8 * j then 0
              else NOT (mask (8 * j + 8 - ones)))
       [0 ..< nbits div 8]"

text \<open>
  \<^verbatim>\<open>IP.Mask\<close>: a 16-byte address with the IPv4-in-IPv6 prefix is cut to four bytes
  under a 4-byte mask, then the bytes are and-ed; nil when the lengths differ.
\<close>

definition MaskIP :: "byte list \<Rightarrow> byte list \<Rightarrow> byte list" where
  "MaskIP ip m =
     (let m' = (if length m = 16 \<and> length ip = 4 \<and> take 12 m = replicate 12 0xff
                then drop 12 m else m);
          ip' = (if length m' = 4 \<and> length ip = 16 \<and> take 12 ip = v4InV6Prefix
                 then drop 12 ip else ip)
      in if length ip' = length m' then map (\<lambda>(a, b). a AND b) (zip ip' m') else [])"

text \<open>
  The value \<^verbatim>\<open>net.ParseCIDR\<close> builds once the text has given a 16-byte address, a
  prefix length and the address width in bits:
  \<^verbatim>\<open>m := CIDRMask(n, bitLen); &IPNet{IP: IP(addr16).Mask(m), Mask: m}\<close>.
\<close>

definition mkIPNet :: "byte list \<Rightarrow> nat \<Rightarrow> nat \<Rightarrow> IPNet" where
  "mkIPNet addr16 n bitLen =
     \<lparr> IP = MaskIP addr16 (CIDRMask n bitLen), Mask = CIDRMask n bitLen \<rparr>"

subsection \<open>ipToBytes\<close>

definition ipToBytes :: "byte list \<Rightarrow> byte list" where
  "ipToBytes ip =
     (case To4 ip of
        Some ip4 \<Rightarrow> ip4
      | None \<Rightarrow> (case To16 ip of Some ip16 \<Rightarrow> ip16 | None \<Rightarrow> []))"

text \<open>
  The three lines every loop of the package starts with:
  \<^verbatim>\<open>byteIndex := i / 8; bitIndex := 7 - (i % 8); bit := (ipBytes[byteIndex] >> uint(bitIndex)) & 1\<close>.
  The slice index panics when \<open>byteIndex\<close> is out of range; that is \<open>None\<close>.
\<close>

definition bitAt :: "byte list \<Rightarrow> nat \<Rightarrow> byte option" where
  "bitAt ipBytes i =
     (let byteIndex = i div 8; bitIndex = 7 - i mod 8
      in if byteIndex < length ipBytes
         then Some (bitOf (ipBytes ! byteIndex) bitIndex)
         else None)"

subsection \<open>Insert\<close>

text \<open>
  Both loops of \<^verbatim>\<open>Insert\<close> have the same body and run \<open>i\<close> from a start up to a
  bound. \<open>insertLoop\<close> is that loop from the node reached so far; \<open>k\<close> is what the
  code does with the node the loop ends at. The child is created when absent, the loop
  goes on in the child, and the parent keeps the new or updated child under \<open>b\<close>, the
  \<^verbatim>\<open>bit\<close> of the source. A panic ends the call without a trie.
\<close>

function insertLoop ::
  "byte list \<Rightarrow> nat \<Rightarrow> nat \<Rightarrow> ('v Node \<Rightarrow> error + 'v Node) \<Rightarrow> 'v Node \<Rightarrow> error + 'v Node"
where
  "insertLoop ipBytes i bound k node =
     (if i < bound then
        (case bitAt ipBytes i of
           None \<Rightarrow> Inl Panic
         | Some b \<Rightarrow>
             (let child = (case children node b of None \<Rightarrow> newNode | Some c \<Rightarrow> c)
              in case insertLoop ipBytes (i + 1) bound k child of
                   Inl e \<Rightarrow> Inl e
                 | Inr child' \<Rightarrow>
                     Inr (Node ((children node)(b \<mapsto> child')) (isEnd node)
                            (metadata node) (cidr node))))
      else k node)"
  by pat_completeness auto
termination
  by (relation "measure (\<lambda>(ipBytes, i, bound, k, node). bound - i)") auto

text \<open>The last three assignments of \<^verbatim>\<open>Insert\<close>.\<close>

definition markEnd :: "string \<Rightarrow> 'v metadata \<Rightarrow> 'v Node \<Rightarrow> error + 'v Node" where
  "markEnd c md node = Inr (Node (children node) True md c)"

definition Insert ::
  "netpkg \<Rightarrow> 'v IPTrie \<Rightarrow> string \<Rightarrow> 'v metadata \<Rightarrow> error + 'v IPTrie"
where
  "Insert net t c md =
     (case ParseCIDR net c of
        None \<Rightarrow> Inl InvalidCIDR
      | Some ipnet \<Rightarrow>
          (let ipBytes = ipToBytes (IP ipnet);
               (ones, total) = Size (Mask ipnet);
               rest = (if ones = total
                       then insertLoop ipBytes ones total (markEnd c md)
                       else markEnd c md)
           in case insertLoop ipBytes 0 ones rest (root t) of
                Inl e \<Rightarrow> Inl e
              | Inr r \<Rightarrow> Inr (t\<lparr> root := r \<rparr>)))"

subsection \<open>Find\<close>

text \<open>
  The loop of \<^verbatim>\<open>Find\<close> from index \<open>i\<close>, at \<open>node\<close>, with \<open>lastMatch\<close> as \<open>None\<close>
  for nil. It returns the two variables the code reads after the loop: \<open>node\<close>
  (\<open>None\<close> after the \<^verbatim>\<open>break\<close> on a missing child) and \<open>lastMatch\<close>.
\<close>

function findLoop ::
  "byte list \<Rightarrow> nat \<Rightarrow> nat \<Rightarrow> 'v Node \<Rightarrow> 'v Node option
     \<Rightarrow> error + ('v Node option \<times> 'v Node option)"
where
  "findLoop ipBytes i totalBits node lastMatch =
     (if i < totalBits then
        (let lastMatch' = (if isEnd node then Some node else lastMatch)
         in case bitAt ipBytes i of
              None \<Rightarrow> Inl Panic
            | Some b \<Rightarrow>
                (case children node b of
                   None \<Rightarrow> Inr (None, lastMatch')
                 | Some child \<Rightarrow> findLoop ipBytes (i + 1) totalBits child lastMatch'))
      else Inr (Some node, lastMatch))"
  by pat_completeness auto
termination
  by (relation "measure (\<lambda>(ipBytes, i, totalBits, node, lastMatch). totalBits - i)") auto

definition Find :: "netpkg \<Rightarrow> 'v IPTrie \<Rightarrow> string \<Rightarrow> error + (string \<times> 'v metadata)" where
  "Find net t ip =
     (case ParseIP net ip of
        None \<Rightarrow> Inl InvalidIP
      | Some parsedIP \<Rightarrow>
          (let ipBytes = ipToBytes parsedIP;
               totalBits = length ipBytes * 8
           in case findLoop ipBytes 0 totalBits (root t) None of
                Inl e \<Rightarrow> Inl e
              | Inr (node, lastMatch) \<Rightarrow>
                  (let lastMatch' =
                         (case node of
                            Some n \<Rightarrow> if isEnd n then Some n else lastMatch
                          | None \<Rightarrow> lastMatch)
                   in case lastMatch' of
                        None \<Rightarrow> Inl NoMatch
                      | Some m \<Rightarrow> Inr (cidr m, metadata m))))"

subsection \<open>FindAll\<close>

text \<open>The struct literal appended to \<^verbatim>\<open>matches\<close>.\<close>

definition entry :: "'v Node \<Rightarrow> string \<times> 'v metadata" where
  "entry node = (cidr node, metadata node)"

function findAllLoop ::
  "byte list \<Rightarrow> nat \<Rightarrow> nat \<Rightarrow> 'v Node \<Rightarrow> (string \<times> 'v metadata) list
     \<Rightarrow> error + ('v Node option \<times> (string \<times> 'v metadata) list)"
where
  "findAllLoop ipBytes i totalBits node matches =
     (if i < totalBits then
        (let matches' = (if isEnd node then matches @ [entry node] else matches)
         in case bitAt ipBytes i of
              None \<Rightarrow> Inl Panic
            | Some b \<Rightarrow>
                (case children node b of
                   None \<Rightarrow> Inr (None, matches')
                 | Some child \<Rightarrow> findAllLoop ipBytes (i + 1) totalBits child matches'))
      else Inr (Some node, matches))"
  by pat_completeness auto
termination
  by (relation "measure (\<lambda>(ipBytes, i, totalBits, node, matches). totalBits - i)") auto

definition FindAll ::
  "netpkg \<Rightarrow> 'v IPTrie \<Rightarrow> string \<Rightarrow> error + (string \<times> 'v metadata) list"
where
  "FindAll net t ip =
     (case ParseIP net ip of
        None \<Rightarrow> Inl InvalidIP
      | Some parsedIP \<Rightarrow>
          (let ipBytes = ipToBytes parsedIP;
               totalBits = length ipBytes * 8
           in case findAllLoop ipBytes 0 totalBits (root t) [] of
                Inl e \<Rightarrow> Inl e
              | Inr (node, matches) \<Rightarrow>
                  Inr (case node of
                         Some n \<Rightarrow> if isEnd n then matches @ [entry n] else matches
                       | None \<Rightarrow> matches)))"

subsection \<open>Delete\<close>

text \<open>
  \<^verbatim>\<open>Delete\<close> walks down collecting the parents in \<^verbatim>\<open>nodes\<close>, clears the node it
  ends at, and then visits the parents from the deepest to the root, each time
  recomputing the same \<open>bit\<close> from the same index \<open>i\<close> and removing the child under it
  when that child has no children and is not an end. In \<open>deleteLoop\<close> the walk down is
  the recursion and the visit of parent \<open>i\<close> is what is done with the result of the
  call for \<open>i + 1\<close>, so the parents are treated in the order of the second loop. Every
  error return of the code comes before its first assignment to a node.
\<close>

function deleteLoop :: "byte list \<Rightarrow> nat \<Rightarrow> nat \<Rightarrow> 'v Node \<Rightarrow> error + 'v Node" where
  "deleteLoop ipBytes i totalBits node =
     (if i < totalBits then
        (case bitAt ipBytes i of
           None \<Rightarrow> Inl Panic
         | Some b \<Rightarrow>
             (case children node b of
                None \<Rightarrow> Inl CIDRNotFound
              | Some c \<Rightarrow>
                  (case deleteLoop ipBytes (i + 1) totalBits c of
                     Inl e \<Rightarrow> Inl e
                   | Inr child \<Rightarrow>
                       Inr (Node
                              (if children child = Map.empty \<and> \<not> isEnd child
                               then (children node)(b := None)
                               else (children node)(b \<mapsto> child))
                              (isEnd node) (metadata node) (cidr node)))))
      else if \<not> isEnd node then Inl CIDRNotFound
      else Inr (Node (children node) False Map.empty []))"
  by pat_completeness auto
termination
  by (relation "measure (\<lambda>(ipBytes, i, totalBits, node). totalBits - i)") auto

definition Delete :: "netpkg \<Rightarrow> 'v IPTrie \<Rightarrow> string \<Rightarrow> error + 'v IPTrie" where
  "Delete net t c =
     (case ParseCIDR net c of
        None \<Rightarrow> Inl InvalidCIDR
      | Some ipnet \<Rightarrow>
          (let ipBytes = ipToBytes (IP ipnet);
               (ones, total) = Size (Mask ipnet);
               totalBits = (if ones = total then length ipBytes * 8 else ones)
           in case deleteLoop ipBytes 0 totalBits (root t) of
                Inl e \<Rightarrow> Inl e
              | Inr r \<Rightarrow> Inr (t\<lparr> root := r \<rparr>)))"

subsection \<open>Sequences of operations\<close>

text \<open>
  A caller's use of the trie is a list of operations on one trie, started from
  \<^verbatim>\<open>NewIPTrie()\<close>. An operation that returns an error has not assigned to any node, and
  the two lookups never assign; an operation that panics ends the run (\<open>None\<close>).
\<close>

datatype 'v operation =
    OpInsert string "'v metadata"
  | OpFind string
  | OpFindAll string
  | OpDelete string

fun applyOp :: "netpkg \<Rightarrow> 'v IPTrie \<Rightarrow> 'v operation \<Rightarrow> 'v IPTrie option" where
  "applyOp net t (OpInsert c md) =
     (case Insert net t c md of
        Inr t' \<Rightarrow> Some t' | Inl e \<Rightarrow> if e = Panic then None else Some t)"
| "applyOp net t (OpFind ip) =
     (case Find net t ip of
        Inr r \<Rightarrow> Some t | Inl e \<Rightarrow> if e = Panic then None else Some t)"
| "applyOp net t (OpFindAll ip) =
     (case FindAll net t ip of
        Inr r \<Rightarrow> Some t | Inl e \<Rightarrow> if e = Panic then None else Some t)"
| "applyOp net t (OpDelete c) =
     (case Delete net t c of
        Inr t' \<Rightarrow> Some t' | Inl e \<Rightarrow> if e = Panic then None else Some t)"

fun run :: "netpkg \<Rightarrow> 'v IPTrie \<Rightarrow> 'v operation list \<Rightarrow> 'v IPTrie option" where
  "run net t [] = Some t"
| "run net t (op # ops) =
     (case applyOp net t op of None \<Rightarrow> None | Some t' \<Rightarrow> run net t' ops)"

subsection \<open>Paths and registrations\<close>

text \<open>
  The node reached from \<open>n\<close> along a sequence of child keys, and what the trie has
  registered at a path: the CIDR text and metadata of the node there, when it is an end.
\<close>

primrec walk :: "'v Node \<Rightarrow> byte list \<Rightarrow> 'v Node option" where
  "walk n [] = Some n"
| "walk n (b # p) = (case children n b of None \<Rightarrow> None | Some c \<Rightarrow> walk c p)"

definition registered :: "'v Node \<Rightarrow> byte list \<Rightarrow> (string \<times> 'v metadata) option" where
  "registered n p =
     (case walk n p of
        None \<Rightarrow> None
      | Some m \<Rightarrow> if isEnd m then Some (entry m) else None)"

text \<open>
  The registrations that cover a bit sequence \<open>bs\<close>, by ascending length: those at
  \<open>take d bs\<close> for \<open>d\<close> from 0 to the length of \<open>bs\<close>.
\<close>

definition covering :: "'v Node \<Rightarrow> byte list \<Rightarrow> (string \<times> 'v metadata) list" where
  "covering n bs = List.map_filter (\<lambda>d. registered n (take d bs)) [0 ..< Suc (length bs)]"

text \<open>The pruning invariant for the nodes below \<open>n\<close>: none is childless and not an end.\<close>

definition live :: "'v Node \<Rightarrow> bool" where
  "live m = (children m \<noteq> Map.empty \<or> isEnd m)"

definition pruned :: "'v Node \<Rightarrow> bool" where
  "pruned n = (\<forall>p m. p \<noteq> [] \<longrightarrow> walk n p = Some m \<longrightarrow> live m)"

subsection \<open>The loops as recursions over the bit sequence\<close>

text \<open>
  While the index stays inside \<open>ipBytes\<close>, each loop consumes the bits of
  \<open>bits ipBytes\<close> from \<open>i\<close> to its bound one by one. The functions below are the
  same loop bodies run over that list of bits; the lemmas \<open>insertLoop_path\<close>,
  \<open>findLoop_path\<close>, \<open>findAllLoop_path\<close> and \<open>deleteLoop_path\<close> prove that the
  loops of the code equal them.
\<close>

primrec insertPath ::
  "byte list \<Rightarrow> ('v Node \<Rightarrow> error + 'v Node) \<Rightarrow> 'v Node \<Rightarrow> error + 'v Node"
where
  "insertPath [] k node = k node"
| "insertPath (b # p) k node =
     (let child = (case children node b of None \<Rightarrow> newNode | Some c \<Rightarrow> c)
      in case insertPath p k child of
           Inl e \<Rightarrow> Inl e
         | Inr child' \<Rightarrow>
             Inr (Node ((children node)(b \<mapsto> child')) (isEnd node)
                    (metadata node) (cidr node)))"

primrec findPath ::
  "byte list \<Rightarrow> 'v Node \<Rightarrow> 'v Node option \<Rightarrow> 'v Node option \<times> 'v Node option"
where
  "findPath [] node lastMatch = (Some node, lastMatch)"
| "findPath (b # p) node lastMatch =
     (let lastMatch' = (if isEnd node then Some node else lastMatch)
      in case children node b of
           None \<Rightarrow> (None, lastMatch')
         | Some child \<Rightarrow> findPath p child lastMatch')"

primrec findAllPath ::
  "byte list \<Rightarrow> 'v Node \<Rightarrow> (string \<times> 'v metadata) list
     \<Rightarrow> 'v Node option \<times> (string \<times> 'v metadata) list"
where
  "findAllPath [] node matches = (Some node, matches)"
| "findAllPath (b # p) node matches =
     (let matches' = (if isEnd node then matches @ [entry node] else matches)
      in case children node b of
           None \<Rightarrow> (None, matches')
         | Some child \<Rightarrow> findAllPath p child matches')"

primrec deletePath :: "byte list \<Rightarrow> 'v Node \<Rightarrow> error + 'v Node" where
  "deletePath [] node =
     (if \<not> isEnd node then Inl CIDRNotFound
      else Inr (Node (children node) False Map.empty []))"
| "deletePath (b # p) node =
     (case children node b of
        None \<Rightarrow> Inl CIDRNotFound
      | Some c \<Rightarrow>
          (case deletePath p c of
             Inl e \<Rightarrow> Inl e
           | Inr child \<Rightarrow>
               Inr (Node
                      (if children child = Map.empty \<and> \<not> isEnd child
                       then (children node)(b := None)
                       else (children node)(b \<mapsto> child))
                      (isEnd node) (metadata node) (cidr node))))"

text \<open>
  The bit sequence \<^verbatim>\<open>Insert\<close> walks for a parsed CIDR (its first \<open>ones\<close> bits), and
  the one \<^verbatim>\<open>Delete\<close> walks (all the bits of \<open>ipBytes\<close> when \<open>ones = total\<close>).
\<close>

definition insertBits :: "IPNet \<Rightarrow> byte list" where
  "insertBits ipnet =
     (let (ones, total) = Size (Mask ipnet)
      in take ones (bits (ipToBytes (IP ipnet))))"

definition deleteBits :: "IPNet \<Rightarrow> byte list" where
  "deleteBits ipnet =
     (let ipBytes = ipToBytes (IP ipnet);
          (ones, total) = Size (Mask ipnet);
          totalBits = (if ones = total then length ipBytes * 8 else ones)
      in take totalBits (bits ipBytes))"

text \<open>
  Whether every index of the first loop of \<^verbatim>\<open>Insert\<close> is inside \<open>ipBytes\<close>, and the
  same for the loop of \<^verbatim>\<open>Delete\<close>.
\<close>

definition insertInRange :: "IPNet \<Rightarrow> bool" where
  "insertInRange ipnet = (fst (Size (Mask ipnet)) \<le> length (ipToBytes (IP ipnet)) * 8)"

definition deleteInRange :: "IPNet \<Rightarrow> bool" where
  "deleteInRange ipnet =
     (let (ones, total) = Size (Mask ipnet)
      in ones = total \<or> ones \<le> length (ipToBytes (IP ipnet)) * 8)"

subsection \<open>The state a caller has reached\<close>

text \<open>The trie after a run of operations from \<^verbatim>\<open>NewIPTrie()\<close> that did not panic.\<close>

definition trieAfter :: "netpkg \<Rightarrow> 'v operation list \<Rightarrow> 'v IPTrie" where
  "trieAfter net ops = (case run net NewIPTrie ops of Some t \<Rightarrow> t | None \<Rightarrow> NewIPTrie)"

subsection \<open>The parsers on the texts of the examples\<close>

text \<open>
  The instance of the two parsers used for the concrete examples: to each CIDR text the
  16-byte form of its address, its prefix length and its address width, from which
  \<open>mkIPNet\<close> builds the \<^verbatim>\<open>IPNet\<close> as \<^verbatim>\<open>net.ParseCIDR\<close> does; to each address text
  the 16 bytes \<^verbatim>\<open>net.ParseIP\<close> returns (a dotted quad comes back in its IPv4-in-IPv6
  form). Every text outside the two tables counts as rejected.
\<close>

definition exCIDRs :: "(string \<times> byte list \<times> nat \<times> nat) list" where
  "exCIDRs =
     [(''192.168.0.0/16'', v4InV6Prefix @ [192, 168, 0, 0], 16, 32),
      (''192.168.1.0/24'', v4InV6Prefix @ [192, 168, 1, 0], 24, 32),
      (''10.0.0.0/8'', v4InV6Prefix @ [10, 0, 0, 0], 8, 32),
      (''10.1.0.0/16'', v4InV6Prefix @ [10, 1, 0, 0], 16, 32),
      (''0.0.0.0/0'', v4InV6Prefix @ [0, 0, 0, 0], 0, 32),
      (''128.0.0.0/1'', v4InV6Prefix @ [128, 0, 0, 0], 1, 32),
      (''192.0.0.0/2'', v4InV6Prefix @ [192, 0, 0, 0], 2, 32),
      (''1.2.3.0/32'', v4InV6Prefix @ [1, 2, 3, 0], 32, 32),
      (''::ffff:1.2.3.4/128'', v4InV6Prefix @ [1, 2, 3, 4], 128, 128),
      (''::ffff:1.2.3.4/120'', v4InV6Prefix @ [1, 2, 3, 4], 120, 128),
      (''::ffff:10.0.0.0/104'', v4InV6Prefix @ [10, 0, 0, 0], 104, 128)]"

definition exIPs :: "(string \<times> byte list) list" where
  "exIPs =
     [(''192.168.1.100'', v4InV6Prefix @ [192, 168, 1, 100]),
      (''10.1.2.3'', v4InV6Prefix @ [10, 1, 2, 3]),
      (''10.2.3.4'', v4InV6Prefix @ [10, 2, 3, 4]),
      (''::ffff:10.1.2.3'', v4InV6Prefix @ [10, 1, 2, 3]),
      (''a00::1'', [0x0a, 0, 0, 0, 0, 0, 0, 0, 0, 0, 0, 0, 0, 0, 0, 1])]"

definition exNet :: netpkg where
  "exNet =
     \<lparr> ParseCIDR =
         (\<lambda>s. map_option (\<lambda>(addr16, n, bitLen). mkIPNet addr16 n bitLen) (map_of exCIDRs s)),
       ParseIP = map_of exIPs \<rparr>"

text \<open>The two metadata maps of \<^verbatim>\<open>TestOverlappingRanges\<close>.\<close>

definition wide :: "string metadata" where
  "wide = [''scope'' \<mapsto> ''wide'']"

definition narrow :: "string metadata" where
  "narrow = [''scope'' \<mapsto> ''narrow'']"

section \<open>The loops and the bit sequence\<close>

lemma length_bits: "length (bits bs) = length bs * 8"
  by (simp add: bits_def)

lemma bitAt_in: "i < length ipBytes * 8 \<Longrightarrow> bitAt ipBytes i = Some (bits ipBytes ! i)"
  by (auto simp: bitAt_def bits_def Let_def)

lemma bitAt_out: "length ipBytes * 8 \<le> i \<Longrightarrow> bitAt ipBytes i = None"
  by (auto simp: bitAt_def Let_def)

lemma drop_take_step:
  "i < bound \<Longrightarrow> bound \<le> length xs \<Longrightarrow> drop i (take bound xs) = xs ! i # drop (Suc i) (take bound xs)"
  by (metis Cons_nth_drop_Suc length_take min.absorb2 nth_take)

declare insertLoop.simps [simp del] findLoop.simps [simp del]
  findAllLoop.simps [simp del] deleteLoop.simps [simp del]

lemma insertLoop_path:
  "i \<le> bound \<Longrightarrow> bound \<le> length ipBytes * 8 \<Longrightarrow>
   insertLoop ipBytes i bound k node = insertPath (drop i (take bound (bits ipBytes))) k node"
proof (induction ipBytes i bound k node rule: insertLoop.induct)
  case (1 ipBytes i bound k node)
  show ?case
  proof (cases "i < bound")
    case True
    with 1 show ?thesis
      by (subst insertLoop.simps)
         (simp add: drop_take_step length_bits bitAt_in Let_def)
  next
    case False
    with 1 show ?thesis by (subst insertLoop.simps) simp
  qed
qed

lemma insertLoop_done: "insertLoop ipBytes n n k = k"
  by (rule ext) (subst insertLoop.simps, simp)

lemma insertLoop_panic:
  "i \<le> length ipBytes * 8 \<Longrightarrow> length ipBytes * 8 < bound \<Longrightarrow>
   insertLoop ipBytes i bound k node = Inl Panic"
proof (induction ipBytes i bound k node rule: insertLoop.induct)
  case (1 ipBytes i bound k node)
  show ?case
  proof (cases "i < length ipBytes * 8")
    case True
    with 1 show ?thesis
      by (subst insertLoop.simps) (simp add: bitAt_in Let_def)
  next
    case False
    with 1 show ?thesis
      by (subst insertLoop.simps) (simp add: bitAt_out)
  qed
qed

lemma findLoop_path:
  "i \<le> totalBits \<Longrightarrow> totalBits \<le> length ipBytes * 8 \<Longrightarrow>
   findLoop ipBytes i totalBits node lastMatch
     = Inr (findPath (drop i (take totalBits (bits ipBytes))) node lastMatch)"
proof (induction ipBytes i totalBits node lastMatch rule: findLoop.induct)
  case (1 ipBytes i totalBits node lastMatch)
  show ?case
  proof (cases "i < totalBits")
    case True
    with 1 show ?thesis
      by (subst findLoop.simps)
         (auto simp: drop_take_step length_bits bitAt_in Let_def split: option.split)
  next
    case False
    with 1 show ?thesis by (subst findLoop.simps) simp
  qed
qed

lemma findAllLoop_path:
  "i \<le> totalBits \<Longrightarrow> totalBits \<le> length ipBytes * 8 \<Longrightarrow>
   findAllLoop ipBytes i totalBits node matches
     = Inr (findAllPath (drop i (take totalBits (bits ipBytes))) node matches)"
proof (induction ipBytes i totalBits node matches rule: findAllLoop.induct)
  case (1 ipBytes i totalBits node matches)
  show ?case
  proof (cases "i < totalBits")
    case True
    with 1 show ?thesis
      by (subst findAllLoop.simps)
         (auto simp: drop_take_step length_bits bitAt_in Let_def split: option.split)
  next
    case False
    with 1 show ?thesis by (subst findAllLoop.simps) simp
  qed
qed

lemma deleteLoop_path:
  "i \<le> totalBits \<Longrightarrow> totalBits \<le> length ipBytes * 8 \<Longrightarrow>
   deleteLoop ipBytes i totalBits node
     = deletePath (drop i (take totalBits (bits ipBytes))) node"
proof (induction ipBytes i totalBits node rule: deleteLoop.induct)
  case (1 ipBytes i totalBits node)
  show ?case
  proof (cases "i < totalBits")
    case True
    with 1 show ?thesis
      by (subst deleteLoop.simps)
         (simp add: drop_take_step length_bits bitAt_in Let_def split: option.split sum.split)
  next
    case False
    with 1 show ?thesis by (subst deleteLoop.simps) simp
  qed
qed

text \<open>
  When the bound of the loop of \<^verbatim>\<open>Delete\<close> lies beyond the bits of \<open>ipBytes\<close>, the
  walk ends with not-found where a child is missing and panics when it reaches the end
  of the slice.
\<close>

lemma deleteLoop_beyond:
  "i \<le> length ipBytes * 8 \<Longrightarrow> length ipBytes * 8 < totalBits \<Longrightarrow>
   deleteLoop ipBytes i totalBits node
     = (case walk node (drop i (bits ipBytes)) of None \<Rightarrow> Inl CIDRNotFound | Some m \<Rightarrow> Inl Panic)"
proof (induction ipBytes i totalBits node rule: deleteLoop.induct)
  case (1 ipBytes i totalBits node)
  show ?case
  proof (cases "i < length ipBytes * 8")
    case True
    then have "drop i (bits ipBytes) = bits ipBytes ! i # drop (Suc i) (bits ipBytes)"
      by (simp add: Cons_nth_drop_Suc length_bits)
    with True 1 show ?thesis
      by (subst deleteLoop.simps)
         (simp add: bitAt_in Let_def split: option.split sum.split)
  next
    case False
    with 1 show ?thesis
      by (subst deleteLoop.simps) (simp add: bitAt_out length_bits)
  qed
qed

section \<open>Registrations and pruning along a path\<close>

lemma registered_Nil: "registered n [] = (if isEnd n then Some (entry n) else None)"
  by (simp add: registered_def)

lemma registered_Cons:
  "registered n (b # q) = (case children n b of None \<Rightarrow> None | Some c \<Rightarrow> registered c q)"
  by (simp add: registered_def split: option.split)

lemma registered_newNode: "registered newNode q = None"
  by (cases q) (simp_all add: registered_Nil registered_Cons newNode_def)

lemma insertPath_returns: "\<exists>n'. insertPath p (markEnd c md) n = Inr n'"
proof (induction p arbitrary: n)
  case Nil
  show ?case by (simp add: markEnd_def)
next
  case (Cons a p)
  let ?child = "case children n a of None \<Rightarrow> newNode | Some c \<Rightarrow> c"
  from Cons [of ?child] obtain child' where "insertPath p (markEnd c md) ?child = Inr child'" ..
  then show ?case by (simp add: Let_def)
qed

lemma registered_insertPath:
  "insertPath p (markEnd c md) n = Inr n' \<Longrightarrow>
   registered n' q = (if q = p then Some (c, md) else registered n q)"
proof (induction p arbitrary: n n' q)
  case Nil
  then show ?case
    by (cases q) (auto simp: markEnd_def registered_Nil registered_Cons entry_def)
next
  case (Cons a p)
  let ?child = "case children n a of None \<Rightarrow> newNode | Some c \<Rightarrow> c"
  from Cons.prems obtain child' where
    rec: "insertPath p (markEnd c md) ?child = Inr child'" and
    n': "n' = Node ((children n)(a \<mapsto> child')) (isEnd n) (metadata n) (cidr n)"
    by (auto simp: Let_def split: sum.splits)
  show ?case
  proof (cases q)
    case Nil
    then show ?thesis by (simp add: n' registered_Nil entry_def)
  next
    case (Cons b q')
    show ?thesis
    proof (cases "b = a")
      case True
      have "registered ?child q' = registered n (a # q')"
        by (simp add: registered_Cons registered_newNode split: option.split)
      with Cons.IH [OF rec, of q'] True Cons show ?thesis
        by (simp add: n' registered_Cons)
    next
      case False
      with Cons show ?thesis by (simp add: n' registered_Cons)
    qed
  qed
qed

lemma pruned_iff:
  "pruned n \<longleftrightarrow> (\<forall>b c. children n b = Some c \<longrightarrow> live c \<and> pruned c)"
proof
  assume P: "pruned n"
  show "\<forall>b c. children n b = Some c \<longrightarrow> live c \<and> pruned c"
  proof (intro allI impI conjI)
    fix b c assume c: "children n b = Some c"
    then have "walk n [b] = Some c" by simp
    with P show "live c" unfolding pruned_def by blast
    show "pruned c" unfolding pruned_def
    proof (intro allI impI)
      fix p m assume "p \<noteq> []" "walk c p = Some m"
      then have "walk n (b # p) = Some m" using c by simp
      with P show "live m" unfolding pruned_def by blast
    qed
  qed
next
  assume R: "\<forall>b c. children n b = Some c \<longrightarrow> live c \<and> pruned c"
  show "pruned n" unfolding pruned_def
  proof (intro allI impI)
    fix p m assume p: "p \<noteq> []" and w: "walk n p = Some m"
    from p obtain b p' where bp: "p = b # p'" by (cases p) auto
    with w obtain c where c: "children n b = Some c" and w': "walk c p' = Some m"
      by (auto split: option.splits)
    from R c have lc: "live c" and pc: "pruned c" by auto
    show "live m"
    proof (cases "p' = []")
      case True with w' lc show ?thesis by simp
    next
      case False with w' pc show ?thesis unfolding pruned_def by blast
    qed
  qed
qed

lemma pruned_newNode: "pruned newNode"
  by (subst pruned_iff) (simp add: newNode_def)

lemma pruned_same_children: "children n' = children n \<Longrightarrow> pruned n' = pruned n"
  using pruned_iff [of n'] pruned_iff [of n] by simp

lemma pruned_insertPath:
  "pruned n \<Longrightarrow> insertPath p (markEnd c md) n = Inr n' \<Longrightarrow> pruned n' \<and> live n'"
proof (induction p arbitrary: n n')
  case Nil
  then have n': "n' = Node (children n) True md c" by (simp add: markEnd_def)
  then have "pruned n' = pruned n" by (intro pruned_same_children) simp
  with Nil.prems(1) n' show ?case by (simp add: live_def)
next
  case (Cons a p)
  let ?child = "case children n a of None \<Rightarrow> newNode | Some c \<Rightarrow> c"
  from Cons.prems obtain child' where
    rec: "insertPath p (markEnd c md) ?child = Inr child'" and
    n': "n' = Node ((children n)(a \<mapsto> child')) (isEnd n) (metadata n) (cidr n)"
    by (auto simp: Let_def split: sum.splits)
  have "pruned ?child"
    using Cons.prems(1) by (auto simp: pruned_newNode pruned_iff [of n] split: option.split)
  from Cons.IH [OF this rec] have c': "pruned child'" "live child'" by auto
  have "pruned n'"
    using Cons.prems(1) c' by (subst pruned_iff) (auto simp: n' pruned_iff [of n])
  moreover have "live n'" by (simp add: n' live_def)
  ultimately show ?case by simp
qed

lemma deletePath_error: "deletePath p n = Inl e \<Longrightarrow> e = CIDRNotFound \<and> registered n p = None"
proof (induction p arbitrary: n)
  case Nil
  then show ?case by (simp add: registered_Nil split: if_splits)
next
  case (Cons a p)
  show ?case
  proof (cases "children n a")
    case None
    with Cons.prems show ?thesis by (simp add: registered_Cons)
  next
    case (Some ch)
    with Cons.prems have "deletePath p ch = Inl e" by (simp split: sum.splits)
    from Cons.IH [OF this] Some show ?thesis by (simp add: registered_Cons)
  qed
qed

lemma registered_dead: "children n = Map.empty \<Longrightarrow> \<not> isEnd n \<Longrightarrow> registered n q = None"
  by (cases q) (simp_all add: registered_Nil registered_Cons)

lemma registered_deletePath:
  "deletePath p n = Inr n' \<Longrightarrow>
   registered n p \<noteq> None \<and> (\<forall>q. registered n' q = (if q = p then None else registered n q))"
proof (induction p arbitrary: n n')
  case Nil
  then have e: "isEnd n" and n': "n' = Node (children n) False Map.empty []"
    by (auto split: if_splits)
  have "registered n' q = (if q = [] then None else registered n q)" for q
    by (cases q) (simp_all add: n' registered_Nil registered_Cons)
  with e show ?case by (simp add: registered_Nil)
next
  case (Cons a p)
  from Cons.prems obtain ch child where
    ch: "children n a = Some ch" and rec: "deletePath p ch = Inr child" and
    n': "n' = Node (if children child = Map.empty \<and> \<not> isEnd child
                    then (children n)(a := None) else (children n)(a \<mapsto> child))
                   (isEnd n) (metadata n) (cidr n)"
    by (auto split: option.splits sum.splits)
  from Cons.IH [OF rec] have
    was: "registered ch p \<noteq> None" and
    now: "\<And>q. registered child q = (if q = p then None else registered ch q)" by auto
  have "registered n' q = (if q = a # p then None else registered n q)" for q
  proof (cases q)
    case Nil
    then show ?thesis by (simp add: n' registered_Nil entry_def)
  next
    case (Cons b q')
    show ?thesis
    proof (cases "b = a")
      case False
      with Cons show ?thesis by (simp add: n' registered_Cons)
    next
      case True
      show ?thesis
      proof (cases "children child = Map.empty \<and> \<not> isEnd child")
        case dead: True
        then have "registered child q' = None" by (simp add: registered_dead)
        with now [of q'] dead True Cons ch show ?thesis
          by (auto simp: n' registered_Cons split: if_splits)
      next
        case alive: False
        with now [of q'] True Cons ch show ?thesis
          by (auto simp: n' registered_Cons)
      qed
    qed
  qed
  with was ch show ?case by (simp add: registered_Cons)
qed

lemma pruned_deletePath:
  "pruned n \<Longrightarrow> deletePath p n = Inr n' \<Longrightarrow> pruned n'"
proof (induction p arbitrary: n n')
  case Nil
  then have "children n' = children n" by (auto split: if_splits)
  then have "pruned n' = pruned n" by (rule pruned_same_children)
  with Nil.prems(1) show ?case by simp
next
  case (Cons a p)
  from Cons.prems obtain ch child where
    ch: "children n a = Some ch" and rec: "deletePath p ch = Inr child" and
    n': "n' = Node (if children child = Map.empty \<and> \<not> isEnd child
                    then (children n)(a := None) else (children n)(a \<mapsto> child))
                   (isEnd n) (metadata n) (cidr n)"
    by (auto split: option.splits sum.splits)
  from Cons.prems(1) ch have "pruned ch" by (auto simp: pruned_iff [of n])
  from Cons.IH [OF this rec] have pc: "pruned child" .
  from Cons.prems(1) have others: "\<And>b c. children n b = Some c \<Longrightarrow> live c \<and> pruned c"
    by (simp add: pruned_iff [of n])
  show ?case
  proof (subst pruned_iff, intro allI impI)
    fix b c assume c: "children n' b = Some c"
    show "live c \<and> pruned c"
    proof (cases "b = a")
      case False
      with c have "children n b = Some c" by (simp add: n' split: if_splits)
      then show ?thesis by (rule others)
    next
      case True
      with c have "c = child" and "\<not> (children child = Map.empty \<and> \<not> isEnd child)"
        by (auto simp: n' split: if_splits)
      with pc show ?thesis by (auto simp: live_def)
    qed
  qed
qed

section \<open>The lookups\<close>

lemma map_filter_upt_Suc:
  "List.map_filter f [0 ..< Suc k] = (case f 0 of None \<Rightarrow> [] | Some x \<Rightarrow> [x]) @ List.map_filter (f \<circ> Suc) [0 ..< k]"
proof -
  have "[0 ..< Suc k] = 0 # map Suc [0 ..< k]"
    by (simp add: upt_conv_Cons map_Suc_upt del: upt_Suc)
  then show ?thesis
    by (simp add: List.map_filter_def filter_map comp_def split: option.split del: upt_Suc)
qed

lemma map_filter_upt_snoc:
  "List.map_filter f [0 ..< Suc k] = List.map_filter f [0 ..< k] @ (case f k of None \<Rightarrow> [] | Some x \<Rightarrow> [x])"
  by (simp add: List.map_filter_def split: option.split)

lemma map_filter_None: "List.map_filter (\<lambda>x. None) xs = []"
  by (simp add: List.map_filter_def)

lemma covering_Nil: "covering n [] = (if isEnd n then [entry n] else [])"
  by (simp add: covering_def List.map_filter_def registered_Nil)

lemma covering_Cons:
  "covering n (b # bs) =
     (if isEnd n then [entry n] else [])
       @ (case children n b of None \<Rightarrow> [] | Some c \<Rightarrow> covering c bs)"
proof -
  have "covering n (b # bs) =
          (case registered n [] of None \<Rightarrow> [] | Some x \<Rightarrow> [x])
            @ List.map_filter (\<lambda>d. registered n (b # take d bs)) [0 ..< Suc (length bs)]"
    unfolding covering_def
    by (subst map_filter_upt_Suc) (simp add: comp_def del: upt_Suc)
  then show ?thesis
    by (simp add: registered_Nil registered_Cons covering_def map_filter_None
             split: option.split del: upt_Suc)
qed

lemma findAllPath_covering:
  "(case findAllPath p n acc of
      (node, ms) \<Rightarrow>
        (case node of Some m \<Rightarrow> if isEnd m then ms @ [entry m] else ms | None \<Rightarrow> ms))
   = acc @ covering n p"
  by (induction p arbitrary: n acc)
     (simp_all add: covering_Nil covering_Cons Let_def split: option.split)

lemma FindAll_covering:
  assumes "ParseIP net a = Some ip"
  shows "FindAll net t a = Inr (covering (root t) (bits (ipToBytes ip)))"
proof -
  let ?b = "ipToBytes ip"
  have "findAllLoop ?b 0 (length ?b * 8) (root t) []
          = Inr (findAllPath (bits ?b) (root t) [])"
    by (subst findAllLoop_path) (simp_all add: length_bits)
  with assms findAllPath_covering [of "bits ?b" "root t" "[]"] show ?thesis
    by (simp add: FindAll_def Let_def split: prod.splits)
qed

lemma findPath_findAllPath:
  assumes "map_option entry lm = (if acc = [] then None else Some (last acc))"
  shows "fst (findPath p n lm) = fst (findAllPath p n acc) \<and>
         map_option entry (snd (findPath p n lm))
           = (if snd (findAllPath p n acc) = [] then None
              else Some (last (snd (findAllPath p n acc))))"
  using assms
proof (induction p arbitrary: n lm acc)
  case Nil
  then show ?case by simp
next
  case (Cons b p)
  let ?lm = "if isEnd n then Some n else lm"
  let ?acc = "if isEnd n then acc @ [entry n] else acc"
  have rel: "map_option entry ?lm = (if ?acc = [] then None else Some (last ?acc))"
    using Cons.prems by (auto split: if_splits)
  show ?case
  proof (cases "children n b")
    case None
    with rel show ?thesis by (simp add: Let_def)
  next
    case (Some c)
    with Cons.IH [OF rel, of c] show ?thesis by (simp add: Let_def)
  qed
qed

lemma Find_covering:
  assumes "ParseIP net a = Some ip"
  shows "Find net t a =
           (if covering (root t) (bits (ipToBytes ip)) = [] then Inl NoMatch
            else Inr (last (covering (root t) (bits (ipToBytes ip)))))"
proof -
  let ?b = "ipToBytes ip"
  obtain nd lm where f: "findPath (bits ?b) (root t) None = (nd, lm)" by fastforce
  obtain nd' ms where fa: "findAllPath (bits ?b) (root t) [] = (nd', ms)" by fastforce
  have loop: "findLoop ?b 0 (length ?b * 8) (root t) None = Inr (nd, lm)"
    by (subst findLoop_path) (simp_all add: length_bits f)
  from findPath_findAllPath [of None "[]" "bits ?b" "root t"] f fa
  have nd: "nd = nd'" and rel: "map_option entry lm = (if ms = [] then None else Some (last ms))"
    by simp_all
  let ?lm = "case nd of Some n \<Rightarrow> if isEnd n then Some n else lm | None \<Rightarrow> lm"
  let ?ms = "case nd of Some n \<Rightarrow> if isEnd n then ms @ [entry n] else ms | None \<Rightarrow> ms"
  have cov: "covering (root t) (bits ?b) = ?ms"
    using findAllPath_covering [of "bits ?b" "root t" "[]"] fa nd by simp
  have rel': "map_option entry ?lm = (if ?ms = [] then None else Some (last ?ms))"
    using rel by (auto split: option.split if_splits)
  have "Find net t a
          = (case ?lm of None \<Rightarrow> Inl NoMatch | Some m \<Rightarrow> Inr (cidr m, metadata m))"
    using assms loop by (simp add: Find_def Let_def)
  also have "\<dots> = (if ?ms = [] then Inl NoMatch else Inr (last ?ms))"
    using rel' by (cases ?lm) (auto simp: entry_def split: if_splits)
  finally show ?thesis by (simp only: cov)
qed

lemma map_filter_upt_empty:
  "List.map_filter f [0 ..< k] = [] \<longleftrightarrow> (\<forall>d<k. f d = None)"
  by (auto simp: List.map_filter_def filter_empty_conv)

lemma map_filter_upt_last:
  "List.map_filter f [0 ..< k] \<noteq> [] \<Longrightarrow>
   \<exists>d<k. f d = Some (last (List.map_filter f [0 ..< k])) \<and> (\<forall>d'<k. f d' \<noteq> None \<longrightarrow> d' \<le> d)"
proof (induction k)
  case 0
  then show ?case by (simp add: List.map_filter_def)
next
  case (Suc k)
  show ?case
  proof (cases "f k")
    case (Some x)
    then have "last (List.map_filter f [0 ..< Suc k]) = x"
      by (simp add: map_filter_upt_snoc del: upt_Suc)
    with Some show ?thesis
      by (intro exI [of _ k]) (auto simp del: upt_Suc)
  next
    case None
    then have same: "List.map_filter f [0 ..< Suc k] = List.map_filter f [0 ..< k]"
      by (simp add: map_filter_upt_snoc del: upt_Suc)
    with Suc.prems have "List.map_filter f [0 ..< k] \<noteq> []" by simp
    from Suc.IH [OF this] obtain d where
      d: "d < k" "f d = Some (last (List.map_filter f [0 ..< k]))"
         "\<forall>d'<k. f d' \<noteq> None \<longrightarrow> d' \<le> d" by blast
    have "\<forall>d'<Suc k. f d' \<noteq> None \<longrightarrow> d' \<le> d"
      using d(3) None by (auto simp: less_Suc_eq)
    with d(1,2) same show ?thesis
      by (intro exI [of _ d]) (simp del: upt_Suc)
  qed
qed

section \<open>The operations on parsed texts\<close>

lemma Insert_unparsed: "ParseCIDR net c = None \<Longrightarrow> Insert net t c md = Inl InvalidCIDR"
  by (simp add: Insert_def)

lemma Insert_in_range:
  assumes "ParseCIDR net c = Some ipnet" and "insertInRange ipnet"
  shows "\<exists>r. Insert net t c md = Inr (t\<lparr>root := r\<rparr>) \<and>
             insertPath (insertBits ipnet) (markEnd c md) (root t) = Inr r"
proof -
  obtain ones total where sz: "Size (Mask ipnet) = (ones, total)" by fastforce
  let ?b = "ipToBytes (IP ipnet)"
  from assms(2) sz have le: "ones \<le> length ?b * 8" by (simp add: insertInRange_def)
  have rest: "(if ones = total then insertLoop ?b ones total (markEnd c md) else markEnd c md)
                = markEnd c md"
    by (simp add: insertLoop_done)
  have loop: "insertLoop ?b 0 ones (markEnd c md) (root t)
                = insertPath (insertBits ipnet) (markEnd c md) (root t)"
    using le sz by (subst insertLoop_path) (simp_all add: insertBits_def)
  obtain r where r: "insertPath (insertBits ipnet) (markEnd c md) (root t) = Inr r"
    using insertPath_returns by blast
  have "Insert net t c md = Inr (t\<lparr>root := r\<rparr>)"
    using assms(1) sz loop r unfolding Insert_def Let_def rest
    by (simp add: rest)
  with r show ?thesis by blast
qed

lemma Insert_out_of_range:
  assumes "ParseCIDR net c = Some ipnet" and "\<not> insertInRange ipnet"
  shows "Insert net t c md = Inl Panic"
proof -
  obtain ones total where sz: "Size (Mask ipnet) = (ones, total)" by fastforce
  let ?b = "ipToBytes (IP ipnet)"
  from assms(2) sz have "length ?b * 8 < ones" by (simp add: insertInRange_def)
  then have "insertLoop ?b 0 ones k (root t) = Inl Panic" for k
    by (intro insertLoop_panic) simp_all
  with assms(1) sz show ?thesis by (simp add: Insert_def Let_def)
qed

lemma Insert_success:
  assumes "Insert net t c md = Inr t'"
  shows "\<exists>ipnet. ParseCIDR net c = Some ipnet \<and> insertInRange ipnet \<and>
           insertPath (insertBits ipnet) (markEnd c md) (root t) = Inr (root t')"
proof (cases "ParseCIDR net c")
  case None
  with assms show ?thesis by (simp add: Insert_unparsed)
next
  case (Some ipnet)
  show ?thesis
  proof (cases "insertInRange ipnet")
    case False
    with Some assms show ?thesis by (simp add: Insert_out_of_range)
  next
    case True
    from Insert_in_range [OF Some True, of t md] assms Some True show ?thesis by auto
  qed
qed

lemma Insert_registered:
  assumes "Insert net t c md = Inr t'" and "ParseCIDR net c = Some ipnet"
  shows "registered (root t') q
           = (if q = insertBits ipnet then Some (c, md) else registered (root t) q)"
  using Insert_success [OF assms(1)] assms(2) by (auto simp: registered_insertPath)

lemma Insert_pruned:
  assumes "Insert net t c md = Inr t'" and "pruned (root t)"
  shows "pruned (root t')"
  using Insert_success [OF assms(1)] assms(2) by (auto dest: pruned_insertPath)

lemma Delete_unparsed: "ParseCIDR net c = None \<Longrightarrow> Delete net t c = Inl InvalidCIDR"
  by (simp add: Delete_def)

lemma Delete_in_range:
  assumes "ParseCIDR net c = Some ipnet" and "deleteInRange ipnet"
  shows "Delete net t c =
           (case deletePath (deleteBits ipnet) (root t) of
              Inl e \<Rightarrow> Inl e | Inr r \<Rightarrow> Inr (t\<lparr>root := r\<rparr>))"
proof -
  obtain ones total where sz: "Size (Mask ipnet) = (ones, total)" by fastforce
  let ?b = "ipToBytes (IP ipnet)"
  let ?tot = "if ones = total then length ?b * 8 else ones"
  from assms(2) sz have le: "?tot \<le> length ?b * 8" by (auto simp: deleteInRange_def)
  have "deleteLoop ?b 0 ?tot (root t) = deletePath (take ?tot (bits ?b)) (root t)"
    using le by (subst deleteLoop_path) simp_all
  with assms(1) sz show ?thesis by (simp add: Delete_def deleteBits_def Let_def)
qed

lemma Delete_out_of_range:
  assumes "ParseCIDR net c = Some ipnet" and "\<not> deleteInRange ipnet"
  shows "Delete net t c =
           (case walk (root t) (bits (ipToBytes (IP ipnet))) of
              None \<Rightarrow> Inl CIDRNotFound | Some m \<Rightarrow> Inl Panic)"
proof -
  obtain ones total where sz: "Size (Mask ipnet) = (ones, total)" by fastforce
  let ?b = "ipToBytes (IP ipnet)"
  from assms(2) sz have ne: "ones \<noteq> total" and gt: "length ?b * 8 < ones"
    by (auto simp: deleteInRange_def)
  have "deleteLoop ?b 0 ones (root t)
          = (case walk (root t) (drop 0 (bits ?b)) of None \<Rightarrow> Inl CIDRNotFound | Some m \<Rightarrow> Inl Panic)"
    using gt by (intro deleteLoop_beyond) simp_all
  with assms(1) sz ne show ?thesis
    by (simp add: Delete_def Let_def split: option.split)
qed

lemma Delete_success:
  assumes "Delete net t c = Inr t'"
  shows "\<exists>ipnet. ParseCIDR net c = Some ipnet \<and> deleteInRange ipnet \<and>
           deletePath (deleteBits ipnet) (root t) = Inr (root t')"
proof (cases "ParseCIDR net c")
  case None
  with assms show ?thesis by (simp add: Delete_unparsed)
next
  case (Some ipnet)
  show ?thesis
  proof (cases "deleteInRange ipnet")
    case False
    with Some assms show ?thesis by (simp add: Delete_out_of_range split: option.splits)
  next
    case True
    with Some assms show ?thesis by (auto simp: Delete_in_range split: sum.splits)
  qed
qed

lemma Delete_registered:
  assumes "Delete net t c = Inr t'" and "ParseCIDR net c = Some ipnet"
  shows "registered (root t) (deleteBits ipnet) \<noteq> None \<and>
         registered (root t') q = (if q = deleteBits ipnet then None else registered (root t) q)"
  using Delete_success [OF assms(1)] assms(2) by (auto dest: registered_deletePath)

lemma Delete_pruned:
  assumes "Delete net t c = Inr t'" and "pruned (root t)"
  shows "pruned (root t')"
  using Delete_success [OF assms(1)] assms(2) by (auto dest: pruned_deletePath)

lemma covering_eq_Nil:
  "covering n bs = [] \<longleftrightarrow> (\<forall>p. prefix p bs \<longrightarrow> registered n p = None)"
proof -
  have "(\<forall>d<Suc (length bs). registered n (take d bs) = None)
          \<longleftrightarrow> (\<forall>p. prefix p bs \<longrightarrow> registered n p = None)"
  proof (intro iffI allI impI)
    fix p assume a: "\<forall>d<Suc (length bs). registered n (take d bs) = None" and p: "prefix p bs"
    then have "p = take (length p) bs" "length p \<le> length bs"
      by (auto simp: prefix_def)
    with a show "registered n p = None" by (metis less_Suc_eq_le)
  next
    fix d assume "\<forall>p. prefix p bs \<longrightarrow> registered n p = None"
    then show "registered n (take d bs) = None" by (simp add: take_is_prefix)
  qed
  then show ?thesis
    unfolding covering_def by (simp only: map_filter_upt_empty)
qed

lemma covering_last:
  assumes "covering n bs \<noteq> []"
  shows "\<exists>q. prefix q bs \<and> registered n q = Some (last (covering n bs)) \<and>
             (\<forall>q'. prefix q' bs \<longrightarrow> registered n q' \<noteq> None \<longrightarrow> length q' \<le> length q)"
proof -
  let ?f = "\<lambda>d. registered n (take d bs)"
  from assms obtain d where
    d: "d < Suc (length bs)" "?f d = Some (last (covering n bs))"
       "\<forall>d'<Suc (length bs). ?f d' \<noteq> None \<longrightarrow> d' \<le> d"
    unfolding covering_def using map_filter_upt_last [of ?f "Suc (length bs)"] by blast
  have len: "length (take d bs) = d" using d(1) by simp
  have "\<forall>q'. prefix q' bs \<longrightarrow> registered n q' \<noteq> None \<longrightarrow> length q' \<le> length (take d bs)"
  proof (intro allI impI)
    fix q' assume p: "prefix q' bs" and r: "registered n q' \<noteq> None"
    from p have q': "q' = take (length q') bs" and l: "length q' \<le> length bs"
      by (auto simp: prefix_def)
    from r q' have "?f (length q') \<noteq> None" by simp
    with d(3) l have "length q' \<le> d" by (simp add: less_Suc_eq_le)
    with len show "length q' \<le> length (take d bs)" by simp
  qed
  with d(2) show ?thesis
    by (intro exI [of _ "take d bs"]) (simp add: take_is_prefix)
qed

lemma covering_member:
  assumes "prefix p bs" and "registered n p = Some e"
  shows "e \<in> set (covering n bs)"
proof -
  from assms(1) have "p = take (length p) bs" "length p < Suc (length bs)"
    by (auto simp: prefix_def)
  with assms(2) show ?thesis
    unfolding covering_def List.map_filter_def
    by (force simp: image_iff simp del: upt_Suc)
qed

lemma covering_cong:
  assumes "\<And>p. prefix p bs \<Longrightarrow> registered n' p = registered n p"
  shows "covering n' bs = covering n bs"
  unfolding covering_def
  by (rule arg_cong [where f = "\<lambda>f. List.map_filter f [0 ..< Suc (length bs)]"])
     (simp add: assms take_is_prefix)

section \<open>Consequences for the operations\<close>

text \<open>
  \<^verbatim>\<open>Find\<close> returns the registration at the longest registered prefix of the address
  bits.
\<close>

lemma Find_deepest:
  assumes "ParseIP net a = Some ip"
    and "prefix p (bits (ipToBytes ip))"
    and "registered (root t) p = Some e"
  shows "\<exists>q r. prefix q (bits (ipToBytes ip)) \<and> registered (root t) q = Some r \<and>
           Find net t a = Inr r \<and> length p \<le> length q \<and>
           (\<forall>q'. prefix q' (bits (ipToBytes ip)) \<longrightarrow> registered (root t) q' \<noteq> None
                  \<longrightarrow> length q' \<le> length q)"
proof -
  let ?bs = "bits (ipToBytes ip)"
  from assms(2,3) have ne: "covering (root t) ?bs \<noteq> []"
    by (auto simp: covering_eq_Nil)
  from covering_last [OF ne] obtain q where
    q: "prefix q ?bs" "registered (root t) q = Some (last (covering (root t) ?bs))"
       "\<forall>q'. prefix q' ?bs \<longrightarrow> registered (root t) q' \<noteq> None \<longrightarrow> length q' \<le> length q"
    by blast
  from assms(2,3) q(3) have "length p \<le> length q" by simp
  moreover have "Find net t a = Inr (last (covering (root t) ?bs))"
    using ne by (simp add: Find_covering [OF assms(1)])
  ultimately show ?thesis using q by blast
qed

lemma registered_NewIPTrie: "registered (root NewIPTrie) q = None"
  by (simp add: NewIPTrie_def registered_newNode)

lemma run_trieAfter: "run net NewIPTrie ops = Some t \<Longrightarrow> trieAfter net ops = t"
  by (simp add: trieAfter_def)

lemma deletePath_returns: "registered n p \<noteq> None \<Longrightarrow> \<exists>n'. deletePath p n = Inr n'"
  by (cases "deletePath p n") (auto dest: deletePath_error)

lemma Delete_not_found_iff:
  assumes "ParseCIDR net c = Some ipnet" and "deleteInRange ipnet"
  shows "Delete net t c = Inl CIDRNotFound \<longleftrightarrow> registered (root t) (deleteBits ipnet) = None"
proof (cases "deletePath (deleteBits ipnet) (root t)")
  case (Inl e)
  with deletePath_error [OF Inl] show ?thesis
    by (simp add: Delete_in_range [OF assms])
next
  case (Inr r)
  with registered_deletePath [OF Inr] show ?thesis
    by (simp add: Delete_in_range [OF assms])
qed

lemma Delete_returns:
  assumes "ParseCIDR net c = Some ipnet" and "deleteInRange ipnet"
    and "registered (root t) (deleteBits ipnet) \<noteq> None"
  shows "\<exists>t'. Delete net t c = Inr t'"
proof -
  from deletePath_returns [OF assms(3)] obtain r where
    "deletePath (deleteBits ipnet) (root t) = Inr r" ..
  then show ?thesis by (simp add: Delete_in_range [OF assms(1,2)])
qed

lemma Delete_twice:
  assumes "Delete net t c = Inr t'"
  shows "Delete net t' c = Inl CIDRNotFound"
proof -
  from Delete_success [OF assms] obtain ipnet where
    p: "ParseCIDR net c = Some ipnet" and r: "deleteInRange ipnet" by blast
  from Delete_registered [OF assms p, of "deleteBits ipnet"]
  have "registered (root t') (deleteBits ipnet) = None" by simp
  then show ?thesis by (simp add: Delete_not_found_iff [OF p r])
qed

lemma Delete_then_Find:
  assumes "Delete net t c = Inr t'" and "ParseCIDR net c = Some ipnet"
    and "ParseIP net a = Some ip"
    and "\<forall>p. prefix p (bits (ipToBytes ip)) \<longrightarrow> registered (root t) p \<noteq> None
              \<longrightarrow> p = deleteBits ipnet"
  shows "Find net t' a = Inl NoMatch"
proof -
  have "registered (root t') p = None" if pre: "prefix p (bits (ipToBytes ip))" for p
  proof (cases "p = deleteBits ipnet")
    case True
    then show ?thesis using Delete_registered [OF assms(1,2), of p] by simp
  next
    case False
    with assms(4) pre have "registered (root t) p = None" by blast
    with False show ?thesis using Delete_registered [OF assms(1,2), of p] by simp
  qed
  then have "covering (root t') (bits (ipToBytes ip)) = []"
    by (simp add: covering_eq_Nil)
  then show ?thesis by (simp add: Find_covering [OF assms(3)])
qed

lemma Insert_then_Find:
  assumes "ParseCIDR net c = Some ipnet" and "insertInRange ipnet"
    and "ParseIP net a = Some ip"
    and "prefix (insertBits ipnet) (bits (ipToBytes ip))"
  shows "\<exists>t'. Insert net NewIPTrie c md = Inr t' \<and> Find net t' a = Inr (c, md)"
proof -
  from Insert_in_range [OF assms(1,2), of NewIPTrie md] obtain t' where
    t': "Insert net NewIPTrie c md = Inr t'" by blast
  have reg: "registered (root t') q = (if q = insertBits ipnet then Some (c, md) else None)" for q
    by (simp add: Insert_registered [OF t' assms(1)] registered_NewIPTrie)
  from Find_deepest [OF assms(3,4), of t' "(c, md)"] reg
  obtain q r where "registered (root t') q = Some r" "Find net t' a = Inr r" by auto
  with reg [of q] have "Find net t' a = Inr (c, md)" by (auto split: if_splits)
  with t' show ?thesis by blast
qed

lemma Delete_frame:
  assumes "Delete net t c = Inr t'" and "ParseCIDR net c = Some ipnet"
  shows "(\<forall>q. q \<noteq> deleteBits ipnet \<longrightarrow> registered (root t') q = registered (root t) q) \<and>
         (\<forall>a ip. ParseIP net a = Some ip \<longrightarrow> \<not> prefix (deleteBits ipnet) (bits (ipToBytes ip))
            \<longrightarrow> Find net t' a = Find net t a \<and> FindAll net t' a = FindAll net t a)"
proof (intro conjI allI impI)
  fix q assume "q \<noteq> deleteBits ipnet"
  then show "registered (root t') q = registered (root t) q"
    using Delete_registered [OF assms, of q] by simp
next
  fix a ip
  assume ip: "ParseIP net a = Some ip"
    and np: "\<not> prefix (deleteBits ipnet) (bits (ipToBytes ip))"
  have "covering (root t') (bits (ipToBytes ip)) = covering (root t) (bits (ipToBytes ip))"
  proof (rule covering_cong)
    fix p assume "prefix p (bits (ipToBytes ip))"
    with np have "p \<noteq> deleteBits ipnet" by auto
    then show "registered (root t') p = registered (root t) p"
      using Delete_registered [OF assms, of p] by simp
  qed
  then show "Find net t' a = Find net t a" "FindAll net t' a = FindAll net t a"
    by (simp_all add: Find_covering [OF ip] FindAll_covering [OF ip])
qed

lemma applyOp_pruned:
  assumes "applyOp net t op = Some t'" and "pruned (root t)"
  shows "pruned (root t')"
proof (cases op)
  case (OpInsert c md)
  with assms show ?thesis
    by (auto split: sum.splits if_splits dest: Insert_pruned)
next
  case (OpFind a)
  with assms show ?thesis by (auto split: sum.splits if_splits)
next
  case (OpFindAll a)
  with assms show ?thesis by (auto split: sum.splits if_splits)
next
  case (OpDelete c)
  with assms show ?thesis
    by (auto split: sum.splits if_splits dest: Delete_pruned)
qed

lemma run_pruned:
  "run net t ops = Some t' \<Longrightarrow> pruned (root t) \<Longrightarrow> pruned (root t')"
proof (induction ops arbitrary: t)
  case Nil
  then show ?case by simp
next
  case (Cons op ops)
  from Cons.prems(1) obtain t1 where
    s: "applyOp net t op = Some t1" and r: "run net t1 ops = Some t'"
    by (auto split: option.splits)
  from applyOp_pruned [OF s Cons.prems(2)] have "pruned (root t1)" .
  with r show ?case by (rule Cons.IH)
qed

lemma registered_walk: "registered n p \<noteq> None \<Longrightarrow> walk n p \<noteq> None"
  by (auto simp: registered_def split: option.splits)

lemma Insert_shared_node:
  assumes "ParseCIDR net c = Some ipnet" and "length (IP ipnet) = 4"
    and "Size (Mask ipnet) = (L, 32)"
    and "Insert net t c md = Inr t'"
    and "ParseIP net a = Some ip" and "length ip = 16" and "To4 ip = None"
    and "take L (bits ip) = take L (bits (IP ipnet))"
  shows "registered (root t') (take L (bits (IP ipnet))) = Some (c, md) \<and>
         registered (root t') (take L (bits (ipToBytes ip))) = Some (c, md) \<and>
         (\<exists>ms. FindAll net t' a = Inr ms \<and> (c, md) \<in> set ms) \<and>
         (\<exists>r. Find net t' a = Inr r)"
proof -
  have b4: "ipToBytes (IP ipnet) = IP ipnet" using assms(2) by (simp add: ipToBytes_def To4_def)
  have b16: "ipToBytes ip = ip" using assms(6,7) by (simp add: ipToBytes_def To16_def)
  have ib: "insertBits ipnet = take L (bits (IP ipnet))"
    using assms(3) by (simp add: insertBits_def b4)
  have reg: "registered (root t') (take L (bits ip)) = Some (c, md)"
    using Insert_registered [OF assms(4,1), of "take L (bits ip)"] by (simp add: ib assms(8))
  have pre: "prefix (take L (bits ip)) (bits (ipToBytes ip))"
    by (simp add: b16 take_is_prefix)
  from covering_member [OF pre reg]
  have mem: "(c, md) \<in> set (covering (root t') (bits (ipToBytes ip)))" .
  then have "covering (root t') (bits (ipToBytes ip)) \<noteq> []" by auto
  with mem reg show ?thesis
    by (simp add: FindAll_covering [OF assms(5)] Find_covering [OF assms(5)] b16 assms(8))
qed

lemma prefixes_take: "prefixes bs = map (\<lambda>d. take d bs) [0 ..< Suc (length bs)]"
proof (induction bs)
  case Nil
  show ?case by simp
next
  case (Cons x xs)
  have "[0 ..< Suc (Suc (length xs))] = 0 # map Suc [0 ..< Suc (length xs)]"
    by (simp add: upt_conv_Cons map_Suc_upt del: upt_Suc)
  then show ?case
    by (simp add: Cons.IH comp_def del: upt_Suc)
qed

lemma covering_prefixes: "covering n bs = List.map_filter (registered n) (prefixes bs)"
  by (simp add: covering_def prefixes_take List.map_filter_def filter_map comp_def del: upt_Suc)

lemma covering_beyond:
  assumes "\<And>q. registered n q \<noteq> None \<Longrightarrow> length q \<le> k"
  shows "covering n bs = covering n (take k bs)"
proof -
  have "List.map_filter (registered n) (prefixes (xs @ ys))
          = List.map_filter (registered n) (prefixes xs)" if "k \<le> length xs" for xs ys
  proof (induction ys rule: rev_induct)
    case Nil
    show ?case by simp
  next
    case (snoc y ys)
    have "\<not> length (xs @ ys @ [y]) \<le> k" using that by simp
    with assms have "registered n (xs @ ys @ [y]) = None" by blast
    then show ?case
      using snoc by (simp add: prefixes_snoc [of "xs @ ys" y, simplified] List.map_filter_def)
  qed
  from this [of "take k bs" "drop k bs"] show ?thesis
    by (cases "k \<le> length bs") (simp_all add: covering_prefixes)
qed

lemma covering_set:
  "set (covering n bs) = {e. \<exists>p. prefix p bs \<and> registered n p = Some e}"
proof (intro set_eqI iffI)
  fix e assume "e \<in> set (covering n bs)"
  then obtain p where "p \<in> set (prefixes bs)" "registered n p = Some e"
    by (auto simp: covering_prefixes List.map_filter_def)
  then show "e \<in> {e. \<exists>p. prefix p bs \<and> registered n p = Some e}"
    by (auto simp: in_set_prefixes)
next
  fix e assume "e \<in> {e. \<exists>p. prefix p bs \<and> registered n p = Some e}"
  then show "e \<in> set (covering n bs)" by (auto intro: covering_member)
qed

text \<open>
  The loops stay inside \<open>ipBytes\<close> whenever the mask is no longer than \<open>ipBytes\<close>: a
  4-byte mask with a 4-byte address, or a 16-byte mask with a 16-byte address that
  \<^verbatim>\<open>To4\<close> does not shorten. The remaining case is a 16-byte mask over an address that
  \<^verbatim>\<open>ipToBytes\<close> shortens to four bytes.
\<close>

lemma Size_le: "fst (Size m) \<le> length m * 8"
proof -
  have "length (takeWhile (\<lambda>b. b = 1) (bits m)) \<le> length (bits m)"
    by (rule length_takeWhile_le)
  then show ?thesis by (simp add: Size_def Let_def length_bits)
qed

lemma insertInRange_same_width:
  "length (Mask ipnet) \<le> length (ipToBytes (IP ipnet)) \<Longrightarrow> insertInRange ipnet"
  using Size_le [of "Mask ipnet"] by (simp add: insertInRange_def)

lemma deleteInRange_same_width:
  "length (Mask ipnet) \<le> length (ipToBytes (IP ipnet)) \<Longrightarrow> deleteInRange ipnet"
  using Size_le [of "Mask ipnet"] by (auto simp: deleteInRange_def split: prod.splits)

lemma ipToBytes_length:
  "length (ipToBytes ip) =
     (if length ip = 4 \<or> length ip = 16 \<and> take 12 ip = v4InV6Prefix then 4
      else if length ip = 16 then 16 else 0)"
  by (simp add: ipToBytes_def To4_def To16_def)

section \<open>The examples\<close>

text \<open>
  What the example parsers and the functions of package \<^verbatim>\<open>net\<close> give on the texts of
  the examples, and the registrations of the tries the examples build.
\<close>

lemma ex_cidr_192_16:
  "ParseCIDR exNet ''192.168.0.0/16'' = Some \<lparr>IP = [192, 168, 0, 0], Mask = [255, 255, 0, 0]\<rparr>"
  by code_simp

lemma ex_cidr_192_24:
  "ParseCIDR exNet ''192.168.1.0/24'' = Some \<lparr>IP = [192, 168, 1, 0], Mask = [255, 255, 255, 0]\<rparr>"
  by code_simp

lemma ex_ip_192:
  "ParseIP exNet ''192.168.1.100'' = Some (v4InV6Prefix @ [192, 168, 1, 100])"
  by code_simp

lemma ex_ip_bogus: "ParseIP exNet ''bogus'' = None"
  by code_simp

lemma ex_bytes_192: "ipToBytes (v4InV6Prefix @ [192, 168, 1, 100]) = [192, 168, 1, 100]"
  by code_simp

lemma ex_bits_192:
  "bits [192, 168, 1, 100]
     = [1,1,0,0,0,0,0,0, 1,0,1,0,1,0,0,0, 0,0,0,0,0,0,0,1, 0,1,1,0,0,1,0,0]"
  by code_simp

lemma ex_insertBits_192_16:
  "insertBits \<lparr>IP = [192, 168, 0, 0], Mask = [255, 255, 0, 0]\<rparr>
     = [1,1,0,0,0,0,0,0, 1,0,1,0,1,0,0,0]"
  by code_simp

lemma ex_insertBits_192_24:
  "insertBits \<lparr>IP = [192, 168, 1, 0], Mask = [255, 255, 255, 0]\<rparr>
     = [1,1,0,0,0,0,0,0, 1,0,1,0,1,0,0,0, 0,0,0,0,0,0,0,1]"
  by code_simp

lemma ex_inRange_192:
  "insertInRange \<lparr>IP = [192, 168, 0, 0], Mask = [255, 255, 0, 0]\<rparr>"
  "insertInRange \<lparr>IP = [192, 168, 1, 0], Mask = [255, 255, 255, 0]\<rparr>"
  by code_simp+

lemma ex_overlap:
  defines "T \<equiv> trieAfter exNet [OpInsert ''192.168.0.0/16'' wide, OpInsert ''192.168.1.0/24'' narrow]"
  shows "run exNet NewIPTrie [OpInsert ''192.168.0.0/16'' wide, OpInsert ''192.168.1.0/24'' narrow] = Some T"
    and "registered (root T) q =
          (if q = [1,1,0,0,0,0,0,0, 1,0,1,0,1,0,0,0, 0,0,0,0,0,0,0,1] then Some (''192.168.1.0/24'', narrow)
           else if q = [1,1,0,0,0,0,0,0, 1,0,1,0,1,0,0,0] then Some (''192.168.0.0/16'', wide)
           else None)"
proof -
  from Insert_in_range [OF ex_cidr_192_16 ex_inRange_192(1), of NewIPTrie wide]
  obtain t1 where t1: "Insert exNet NewIPTrie ''192.168.0.0/16'' wide = Inr t1" by blast
  from Insert_in_range [OF ex_cidr_192_24 ex_inRange_192(2), of t1 narrow]
  obtain t2 where t2: "Insert exNet t1 ''192.168.1.0/24'' narrow = Inr t2" by blast
  have r: "run exNet NewIPTrie [OpInsert ''192.168.0.0/16'' wide, OpInsert ''192.168.1.0/24'' narrow] = Some t2"
    using t1 t2 by simp
  then have T: "T = t2" unfolding T_def by (rule run_trieAfter)
  from r T show "run exNet NewIPTrie [OpInsert ''192.168.0.0/16'' wide, OpInsert ''192.168.1.0/24'' narrow] = Some T"
    by simp
  show "registered (root T) q =
          (if q = [1,1,0,0,0,0,0,0, 1,0,1,0,1,0,0,0, 0,0,0,0,0,0,0,1] then Some (''192.168.1.0/24'', narrow)
           else if q = [1,1,0,0,0,0,0,0, 1,0,1,0,1,0,0,0] then Some (''192.168.0.0/16'', wide)
           else None)"
    unfolding T
    by (simp add: Insert_registered [OF t2 ex_cidr_192_24] Insert_registered [OF t1 ex_cidr_192_16]
          ex_insertBits_192_16 ex_insertBits_192_24 registered_NewIPTrie)
qed

lemma ex_overlap_covering:
  "covering (root (trieAfter exNet [OpInsert ''192.168.0.0/16'' wide, OpInsert ''192.168.1.0/24'' narrow]))
     [1,1,0,0,0,0,0,0, 1,0,1,0,1,0,0,0, 0,0,0,0,0,0,0,1, 0,1,1,0,0,1,0,0]
   = [(''192.168.0.0/16'', wide), (''192.168.1.0/24'', narrow)]"
  by (simp add: covering_prefixes ex_overlap(2))

lemma ex_overlap_Find:
  "Find exNet
     (trieAfter exNet [OpInsert ''192.168.0.0/16'' wide, OpInsert ''192.168.1.0/24'' narrow])
     ''192.168.1.100'' = Inr (''192.168.1.0/24'', narrow)"
  by (simp add: Find_covering [OF ex_ip_192] ex_bytes_192 ex_bits_192 ex_overlap_covering)

lemma ex_ip_10_1: "ParseIP exNet ''10.1.2.3'' = Some (v4InV6Prefix @ [10, 1, 2, 3])"
  by code_simp

lemma ex_cidr_mapped_128:
  "ParseCIDR exNet ''::ffff:1.2.3.4/128''
     = Some \<lparr>IP = v4InV6Prefix @ [1, 2, 3, 4], Mask = replicate 16 0xff\<rparr>"
  by code_simp

lemma ex_mapped_128_facts:
  "ipToBytes (v4InV6Prefix @ [1, 2, 3, 4]) = [1, 2, 3, 4]"
  "Size (replicate 16 0xff) = (128, 128)"
  "bitAt [1, 2, 3, 4] 32 = None"
  "\<not> insertInRange \<lparr>IP = v4InV6Prefix @ [1, 2, 3, 4], Mask = replicate 16 0xff\<rparr>"
  by code_simp+

lemma ex_cidr_mapped_104:
  "ParseCIDR exNet ''::ffff:10.0.0.0/104''
     = Some \<lparr>IP = v4InV6Prefix @ [10, 0, 0, 0], Mask = replicate 13 0xff @ [0, 0, 0]\<rparr>"
  by code_simp

lemma ex_mapped_104_facts:
  "ParseIP exNet ''::ffff:10.1.2.3'' = Some (v4InV6Prefix @ [10, 1, 2, 3])"
  "MaskIP (v4InV6Prefix @ [10, 1, 2, 3]) (replicate 13 0xff @ [0, 0, 0]) = v4InV6Prefix @ [10, 0, 0, 0]"
  "\<not> insertInRange \<lparr>IP = v4InV6Prefix @ [10, 0, 0, 0], Mask = replicate 13 0xff @ [0, 0, 0]\<rparr>"
  by code_simp+

lemma ex_cidr_1_2_3_0:
  "ParseCIDR exNet ''1.2.3.0/32'' = Some \<lparr>IP = [1, 2, 3, 0], Mask = [255, 255, 255, 255]\<rparr>"
  by code_simp

lemma ex_cidr_mapped_120:
  "ParseCIDR exNet ''::ffff:1.2.3.4/120''
     = Some \<lparr>IP = v4InV6Prefix @ [1, 2, 3, 0], Mask = replicate 15 0xff @ [0]\<rparr>"
  by code_simp

lemma ex_mapped_120_facts:
  "insertInRange \<lparr>IP = [1, 2, 3, 0], Mask = [255, 255, 255, 255]\<rparr>"
  "insertBits \<lparr>IP = [1, 2, 3, 0], Mask = [255, 255, 255, 255]\<rparr>
     = [0,0,0,0,0,0,0,1, 0,0,0,0,0,0,1,0, 0,0,0,0,0,0,1,1, 0,0,0,0,0,0,0,0]"
  "\<not> deleteInRange \<lparr>IP = v4InV6Prefix @ [1, 2, 3, 0], Mask = replicate 15 0xff @ [0]\<rparr>"
  "bits (ipToBytes (v4InV6Prefix @ [1, 2, 3, 0]))
     = [0,0,0,0,0,0,0,1, 0,0,0,0,0,0,1,0, 0,0,0,0,0,0,1,1, 0,0,0,0,0,0,0,0]"
  "Size (replicate 15 0xff @ [0]) = (120, 128)"
  by code_simp+

lemma ex_cidr_10_8:
  "ParseCIDR exNet ''10.0.0.0/8'' = Some \<lparr>IP = [10, 0, 0, 0], Mask = [255, 0, 0, 0]\<rparr>"
  by code_simp

lemma ex_cidr_10_16:
  "ParseCIDR exNet ''10.1.0.0/16'' = Some \<lparr>IP = [10, 1, 0, 0], Mask = [255, 255, 0, 0]\<rparr>"
  by code_simp

lemma ex_10_facts:
  "insertInRange \<lparr>IP = [10, 0, 0, 0], Mask = [255, 0, 0, 0]\<rparr>"
  "insertInRange \<lparr>IP = [10, 1, 0, 0], Mask = [255, 255, 0, 0]\<rparr>"
  "deleteInRange \<lparr>IP = [10, 1, 0, 0], Mask = [255, 255, 0, 0]\<rparr>"
  "insertBits \<lparr>IP = [10, 0, 0, 0], Mask = [255, 0, 0, 0]\<rparr> = [0,0,0,0,1,0,1,0]"
  "insertBits \<lparr>IP = [10, 1, 0, 0], Mask = [255, 255, 0, 0]\<rparr>
     = [0,0,0,0,1,0,1,0, 0,0,0,0,0,0,0,1]"
  "deleteBits \<lparr>IP = [10, 1, 0, 0], Mask = [255, 255, 0, 0]\<rparr>
     = [0,0,0,0,1,0,1,0, 0,0,0,0,0,0,0,1]"
  by code_simp+

lemma ex_ip_10_2: "ParseIP exNet ''10.2.3.4'' = Some (v4InV6Prefix @ [10, 2, 3, 4])"
  by code_simp

lemma ex_bits_10:
  "bits (ipToBytes (v4InV6Prefix @ [10, 1, 2, 3]))
     = [0,0,0,0,1,0,1,0, 0,0,0,0,0,0,0,1, 0,0,0,0,0,0,1,0, 0,0,0,0,0,0,1,1]"
  "bits (ipToBytes (v4InV6Prefix @ [10, 2, 3, 4]))
     = [0,0,0,0,1,0,1,0, 0,0,0,0,0,0,1,0, 0,0,0,0,0,0,1,1, 0,0,0,0,0,1,0,0]"
  by code_simp+

lemma ex_nested:
  defines "T2 \<equiv> trieAfter exNet [OpInsert ''10.0.0.0/8'' wide, OpInsert ''10.1.0.0/16'' narrow]"
    and "T3 \<equiv> trieAfter exNet [OpInsert ''10.0.0.0/8'' wide, OpInsert ''10.1.0.0/16'' narrow,
                                 OpDelete ''10.1.0.0/16'']"
  shows "run exNet NewIPTrie [OpInsert ''10.0.0.0/8'' wide, OpInsert ''10.1.0.0/16'' narrow] = Some T2"
    and "registered (root T2) q =
          (if q = [0,0,0,0,1,0,1,0, 0,0,0,0,0,0,0,1] then Some (''10.1.0.0/16'', narrow)
           else if q = [0,0,0,0,1,0,1,0] then Some (''10.0.0.0/8'', wide)
           else None)"
    and "Delete exNet T2 ''10.1.0.0/16'' = Inr T3"
    and "run exNet NewIPTrie [OpInsert ''10.0.0.0/8'' wide, OpInsert ''10.1.0.0/16'' narrow,
                              OpDelete ''10.1.0.0/16''] = Some T3"
    and "registered (root T3) q = (if q = [0,0,0,0,1,0,1,0] then Some (''10.0.0.0/8'', wide) else None)"
proof -
  from Insert_in_range [OF ex_cidr_10_8 ex_10_facts(1), of NewIPTrie wide]
  obtain t1 where t1: "Insert exNet NewIPTrie ''10.0.0.0/8'' wide = Inr t1" by blast
  from Insert_in_range [OF ex_cidr_10_16 ex_10_facts(2), of t1 narrow]
  obtain t2 where t2: "Insert exNet t1 ''10.1.0.0/16'' narrow = Inr t2" by blast
  have r2: "run exNet NewIPTrie [OpInsert ''10.0.0.0/8'' wide, OpInsert ''10.1.0.0/16'' narrow] = Some t2"
    using t1 t2 by simp
  then have T2: "T2 = t2" unfolding T2_def by (rule run_trieAfter)
  have reg2: "registered (root t2) q =
          (if q = [0,0,0,0,1,0,1,0, 0,0,0,0,0,0,0,1] then Some (''10.1.0.0/16'', narrow)
           else if q = [0,0,0,0,1,0,1,0] then Some (''10.0.0.0/8'', wide)
           else None)" for q
    by (simp add: Insert_registered [OF t2 ex_cidr_10_16] Insert_registered [OF t1 ex_cidr_10_8]
          ex_10_facts registered_NewIPTrie)
  have "registered (root t2) (deleteBits \<lparr>IP = [10, 1, 0, 0], Mask = [255, 255, 0, 0]\<rparr>) \<noteq> None"
    by (simp add: reg2 ex_10_facts)
  from Delete_returns [OF ex_cidr_10_16 ex_10_facts(3) this]
  obtain t3 where t3: "Delete exNet t2 ''10.1.0.0/16'' = Inr t3" by blast
  have r3: "run exNet NewIPTrie [OpInsert ''10.0.0.0/8'' wide, OpInsert ''10.1.0.0/16'' narrow,
                              OpDelete ''10.1.0.0/16''] = Some t3"
    using t1 t2 t3 by simp
  then have T3: "T3 = t3" unfolding T3_def by (rule run_trieAfter)
  have reg3: "registered (root t3) q = (if q = [0,0,0,0,1,0,1,0] then Some (''10.0.0.0/8'', wide) else None)" for q
    using Delete_registered [OF t3 ex_cidr_10_16, of q]
    by (auto simp: reg2 ex_10_facts)
  show "run exNet NewIPTrie [OpInsert ''10.0.0.0/8'' wide, OpInsert ''10.1.0.0/16'' narrow] = Some T2"
    using r2 T2 by simp
  show "registered (root T2) q =
          (if q = [0,0,0,0,1,0,1,0, 0,0,0,0,0,0,0,1] then Some (''10.1.0.0/16'', narrow)
           else if q = [0,0,0,0,1,0,1,0] then Some (''10.0.0.0/8'', wide)
           else None)"
    unfolding T2 by (rule reg2)
  show "Delete exNet T2 ''10.1.0.0/16'' = Inr T3" using t3 T2 T3 by simp
  show "run exNet NewIPTrie [OpInsert ''10.0.0.0/8'' wide, OpInsert ''10.1.0.0/16'' narrow,
                              OpDelete ''10.1.0.0/16''] = Some T3"
    using r3 T3 by simp
  show "registered (root T3) q = (if q = [0,0,0,0,1,0,1,0] then Some (''10.0.0.0/8'', wide) else None)"
    unfolding T3 by (rule reg3)
qed

lemma ex_cidr_128_1:
  "ParseCIDR exNet ''128.0.0.0/1'' = Some \<lparr>IP = [128, 0, 0, 0], Mask = [128, 0, 0, 0]\<rparr>"
  by code_simp

lemma ex_cidr_192_2:
  "ParseCIDR exNet ''192.0.0.0/2'' = Some \<lparr>IP = [192, 0, 0, 0], Mask = [192, 0, 0, 0]\<rparr>"
  by code_simp

lemma ex_short_facts:
  "ipToBytes [128, 0, 0, 0] = [128, 0, 0, 0]"
  "ipToBytes [192, 0, 0, 0] = [192, 0, 0, 0]"
  "Size [128, 0, 0, 0] = (1, 32)"
  "Size [192, 0, 0, 0] = (2, 32)"
  "bits [128, 0, 0, 0]
     = [1,0,0,0,0,0,0,0, 0,0,0,0,0,0,0,0, 0,0,0,0,0,0,0,0, 0,0,0,0,0,0,0,0]"
  "bits [192, 0, 0, 0]
     = [1,1,0,0,0,0,0,0, 0,0,0,0,0,0,0,0, 0,0,0,0,0,0,0,0, 0,0,0,0,0,0,0,0]"
  by code_simp+

lemma ex_short_run:
  "run exNet NewIPTrie
     [OpInsert ''128.0.0.0/1'' wide, OpInsert ''192.0.0.0/2'' narrow, OpFind ''10.1.2.3'',
      OpDelete ''192.0.0.0/2'']
   = Some \<lparr>root = Node [1 \<mapsto> Node Map.empty True wide ''128.0.0.0/1''] False Map.empty []\<rparr>"
  by (simp add: Insert_def Delete_def Let_def ex_cidr_128_1 ex_cidr_192_2 ex_short_facts
        insertLoop_path deleteLoop_path insertLoop_done markEnd_def newNode_def NewIPTrie_def
        Find_covering [OF ex_ip_10_1])

lemma ex_ip_a00:
  "ParseIP exNet ''a00::1'' = Some [0x0a, 0, 0, 0, 0, 0, 0, 0, 0, 0, 0, 0, 0, 0, 0, 1]"
  by code_simp

lemma ex_a00_facts:
  "To4 [0x0a, 0, 0, 0, 0, 0, 0, 0, 0, 0, 0, 0, 0, 0, 0, 1] = None"
  "Size [255, 0, 0, 0] = (8, 32)"
  "take 8 (bits [0x0a, 0, 0, 0, 0, 0, 0, 0, 0, 0, 0, 0, 0, 0, 0, 1]) = take 8 (bits [10, 0, 0, 0])"
  "take 8 (bits [10, 0, 0, 0]) = [0,0,0,0,1,0,1,0]"
  "ipToBytes [0x0a, 0, 0, 0, 0, 0, 0, 0, 0, 0, 0, 0, 0, 0, 0, 1]
     = [0x0a, 0, 0, 0, 0, 0, 0, 0, 0, 0, 0, 0, 0, 0, 0, 1]"
  "bits [0x0a, 0, 0, 0, 0, 0, 0, 0, 0, 0, 0, 0, 0, 0, 0, 1]
     = [0,0,0,0,1,0,1,0] @ replicate 119 0 @ [1]"
  by code_simp+

lemma ex_ten:
  defines "T \<equiv> trieAfter exNet [OpInsert ''10.0.0.0/8'' wide]"
  shows "Insert exNet NewIPTrie ''10.0.0.0/8'' wide = Inr T"
    and "registered (root T) q = (if q = [0,0,0,0,1,0,1,0] then Some (''10.0.0.0/8'', wide) else None)"
proof -
  from Insert_in_range [OF ex_cidr_10_8 ex_10_facts(1), of NewIPTrie wide]
  obtain t1 where t1: "Insert exNet NewIPTrie ''10.0.0.0/8'' wide = Inr t1" by blast
  then have "run exNet NewIPTrie [OpInsert ''10.0.0.0/8'' wide] = Some t1" by simp
  then have T: "T = t1" unfolding T_def by (rule run_trieAfter)
  show "Insert exNet NewIPTrie ''10.0.0.0/8'' wide = Inr T" using t1 T by simp
  show "registered (root T) q = (if q = [0,0,0,0,1,0,1,0] then Some (''10.0.0.0/8'', wide) else None)"
    unfolding T
    by (simp add: Insert_registered [OF t1 ex_cidr_10_8] ex_10_facts registered_NewIPTrie)
qed

lemma ex_ten_FindAll:
  "FindAll exNet (trieAfter exNet [OpInsert ''10.0.0.0/8'' wide]) ''a00::1''
     = Inr [(''10.0.0.0/8'', wide)]"
proof -
  let ?T = "trieAfter exNet [OpInsert ''10.0.0.0/8'' wide]"
  have "covering (root ?T) bs = covering (root ?T) (take 8 bs)" for bs
    by (rule covering_beyond) (simp add: ex_ten(2) split: if_splits)
  from this [of "bits [0x0a, 0, 0, 0, 0, 0, 0, 0, 0, 0, 0, 0, 0, 0, 0, 1]"]
  show ?thesis
    by (simp add: FindAll_covering [OF ex_ip_a00] ex_a00_facts(3,4,5) covering_prefixes ex_ten(2))
qed

lemma ex_cidr_0_0:
  "ParseCIDR exNet ''0.0.0.0/0'' = Some \<lparr>IP = [0, 0, 0, 0], Mask = [0, 0, 0, 0]\<rparr>"
  by code_simp

lemma ex_0_0_facts:
  "insertInRange \<lparr>IP = [0, 0, 0, 0], Mask = [0, 0, 0, 0]\<rparr>"
  "insertBits \<lparr>IP = [0, 0, 0, 0], Mask = [0, 0, 0, 0]\<rparr> = []"
  by code_simp+

lemma ex_default_route:
  defines "T \<equiv> trieAfter exNet [OpInsert ''0.0.0.0/0'' wide]"
  shows "registered (root T) q = (if q = [] then Some (''0.0.0.0/0'', wide) else None)"
proof -
  from Insert_in_range [OF ex_cidr_0_0 ex_0_0_facts(1), of NewIPTrie wide]
  obtain t1 where t1: "Insert exNet NewIPTrie ''0.0.0.0/0'' wide = Inr t1" by blast
  then have "run exNet NewIPTrie [OpInsert ''0.0.0.0/0'' wide] = Some t1" by simp
  then have T: "T = t1" unfolding T_def by (rule run_trieAfter)
  show ?thesis
    unfolding T
    by (simp add: Insert_registered [OF t1 ex_cidr_0_0] ex_0_0_facts registered_NewIPTrie)
qed

section \<open>The claims\<close>

text \<open>
  C1. For every address text that parses: if some registration lies at a prefix \<open>p\<close> of
  the bit sequence of the address, \<^verbatim>\<open>Find\<close> succeeds and returns the CIDR text and
  metadata registered at a prefix \<open>q\<close> of the address bits that is at least as long as
  \<open>p\<close> and as every registered prefix of the address bits: the deepest registered
  node on the walk. The root's registration is the case \<open>p = []\<close>.
\<close>

theorem Find_longest_match:
  assumes "ParseIP net a = Some ip"
    and "prefix p (bits (ipToBytes ip))"
    and "registered (root t) p = Some e"
  shows "\<exists>q r. prefix q (bits (ipToBytes ip)) \<and> registered (root t) q = Some r \<and>
           Find net t a = Inr r \<and> length p \<le> length q \<and>
           (\<forall>q'. prefix q' (bits (ipToBytes ip)) \<longrightarrow> registered (root t) q' \<noteq> None
                  \<longrightarrow> length q' \<le> length q)"
  using assms by (rule Find_deepest)

text \<open>
  After \<^verbatim>\<open>192.168.0.0/16\<close> and \<^verbatim>\<open>192.168.1.0/24\<close>, the /16 covers
  \<^verbatim>\<open>192.168.1.100\<close> and \<^verbatim>\<open>Find\<close> returns the /24; after \<^verbatim>\<open>0.0.0.0/0\<close> alone,
  the registration at the root is what \<^verbatim>\<open>Find("10.1.2.3")\<close> returns.
\<close>

theorem Find_longest_match_witness:
  "ParseIP exNet ''192.168.1.100'' = Some (v4InV6Prefix @ [192, 168, 1, 100]) \<and>
   prefix [1,1,0,0,0,0,0,0, 1,0,1,0,1,0,0,0] (bits (ipToBytes (v4InV6Prefix @ [192, 168, 1, 100]))) \<and>
   registered
     (root (trieAfter exNet [OpInsert ''192.168.0.0/16'' wide, OpInsert ''192.168.1.0/24'' narrow]))
     [1,1,0,0,0,0,0,0, 1,0,1,0,1,0,0,0] = Some (''192.168.0.0/16'', wide) \<and>
   (\<exists>q r. prefix q (bits (ipToBytes (v4InV6Prefix @ [192, 168, 1, 100]))) \<and>
      registered
        (root (trieAfter exNet [OpInsert ''192.168.0.0/16'' wide, OpInsert ''192.168.1.0/24'' narrow]))
        q = Some r \<and>
      Find exNet
        (trieAfter exNet [OpInsert ''192.168.0.0/16'' wide, OpInsert ''192.168.1.0/24'' narrow])
        ''192.168.1.100'' = Inr r \<and>
      r = (''192.168.1.0/24'', narrow) \<and> 16 \<le> length q) \<and>
   ParseIP exNet ''10.1.2.3'' = Some (v4InV6Prefix @ [10, 1, 2, 3]) \<and>
   prefix [] (bits (ipToBytes (v4InV6Prefix @ [10, 1, 2, 3]))) \<and>
   registered (root (trieAfter exNet [OpInsert ''0.0.0.0/0'' wide])) []
     = Some (''0.0.0.0/0'', wide) \<and>
   Find exNet (trieAfter exNet [OpInsert ''0.0.0.0/0'' wide]) ''10.1.2.3''
     = Inr (''0.0.0.0/0'', wide)"
proof -
  let ?T = "trieAfter exNet [OpInsert ''192.168.0.0/16'' wide, OpInsert ''192.168.1.0/24'' narrow]"
  let ?bs = "bits (ipToBytes (v4InV6Prefix @ [192, 168, 1, 100]))"
  have p: "prefix [1,1,0,0,0,0,0,0, 1,0,1,0,1,0,0,0] ?bs"
    by (simp add: ex_bytes_192 ex_bits_192)
  have reg: "registered (root ?T) [1,1,0,0,0,0,0,0, 1,0,1,0,1,0,0,0] = Some (''192.168.0.0/16'', wide)"
    by (simp add: ex_overlap(2))
  from Find_longest_match [OF ex_ip_192 p reg] obtain q r where
    qr: "prefix q ?bs" "registered (root ?T) q = Some r"
        "Find exNet ?T ''192.168.1.100'' = Inr r"
        "length [1,1,0,0,0,0,0,0, 1,0,1,0,1,0,0,0 :: byte] \<le> length q"
    by blast
  from qr(3) have "r = (''192.168.1.0/24'', narrow)" by (simp add: ex_overlap_Find)
  with qr p reg ex_ip_192 have first:
    "\<exists>q r. prefix q ?bs \<and> registered (root ?T) q = Some r \<and>
       Find exNet ?T ''192.168.1.100'' = Inr r \<and> r = (''192.168.1.0/24'', narrow) \<and>
       16 \<le> length q"
    by auto
  let ?D = "trieAfter exNet [OpInsert ''0.0.0.0/0'' wide]"
  have p0: "prefix [] (bits (ipToBytes (v4InV6Prefix @ [10, 1, 2, 3])))" by simp
  have reg0: "registered (root ?D) [] = Some (''0.0.0.0/0'', wide)"
    by (simp add: ex_default_route)
  from Find_longest_match [OF ex_ip_10_1 p0 reg0] obtain q0 r0 where
    q0: "registered (root ?D) q0 = Some r0" "Find exNet ?D ''10.1.2.3'' = Inr r0"
    by blast
  from q0(1) have "r0 = (''0.0.0.0/0'', wide)"
    by (simp add: ex_default_route split: if_splits)
  with q0(2) have second: "Find exNet ?D ''10.1.2.3'' = Inr (''0.0.0.0/0'', wide)" by simp
  from first second p reg p0 reg0 show ?thesis
    by (intro conjI ex_ip_192 ex_ip_10_1)
qed

text \<open>
  C2. For every address text that parses, \<^verbatim>\<open>FindAll\<close> returns exactly the
  registrations whose bit sequences are prefixes of the bit sequence of the address, as
  a list ordered by ascending prefix length: the list \<open>covering\<close>, which goes through
  the prefixes \<open>take d\<close> of the address bits for \<open>d = 0, 1, \<dots>\<close> and keeps the
  registration found at each. Its elements are the registrations at the prefixes of the
  address bits, and no others.
\<close>

theorem FindAll_all_matches:
  assumes "ParseIP net a = Some ip"
  shows "FindAll net t a = Inr (covering (root t) (bits (ipToBytes ip))) \<and>
         set (covering (root t) (bits (ipToBytes ip)))
           = {e. \<exists>p. prefix p (bits (ipToBytes ip)) \<and> registered (root t) p = Some e}"
  using assms by (simp add: FindAll_covering covering_set)

text \<open>
  With \<^verbatim>\<open>192.168.0.0/16\<close> and \<^verbatim>\<open>192.168.1.0/24\<close> inserted,
  \<^verbatim>\<open>FindAll("192.168.1.100")\<close> is those two entries, the /16 first.
\<close>

theorem FindAll_all_matches_witness:
  "ParseIP exNet ''192.168.1.100'' = Some (v4InV6Prefix @ [192, 168, 1, 100]) \<and>
   FindAll exNet
     (trieAfter exNet [OpInsert ''192.168.0.0/16'' wide, OpInsert ''192.168.1.0/24'' narrow])
     ''192.168.1.100''
     = Inr [(''192.168.0.0/16'', wide), (''192.168.1.0/24'', narrow)]"
  using FindAll_all_matches [OF ex_ip_192,
      of "trieAfter exNet [OpInsert ''192.168.0.0/16'' wide, OpInsert ''192.168.1.0/24'' narrow]"]
  by (simp add: ex_ip_192 ex_bytes_192 ex_bits_192 ex_overlap_covering)

text \<open>
  C3, as stated: an address that parses and is covered by no registration makes
  \<^verbatim>\<open>FindAll\<close> fail with the not-found error of \<^verbatim>\<open>Find\<close>. On a new trie
  \<^verbatim>\<open>Find("10.1.2.3")\<close> fails with not-found, but \<^verbatim>\<open>FindAll("10.1.2.3")\<close> returns
  the empty list and no error.
\<close>

theorem FindAll_no_match_counterexample:
  "ParseIP exNet ''10.1.2.3'' = Some (v4InV6Prefix @ [10, 1, 2, 3]) \<and>
   Find exNet (NewIPTrie :: string IPTrie) ''10.1.2.3'' = Inl NoMatch \<and>
   FindAll exNet (NewIPTrie :: string IPTrie) ''10.1.2.3'' = Inr []"
proof -
  have ip: "ParseIP exNet ''10.1.2.3'' = Some (v4InV6Prefix @ [10, 1, 2, 3])"
    by code_simp
  have "covering (root (NewIPTrie :: string IPTrie)) bs = []" for bs
    by (simp add: covering_eq_Nil registered_NewIPTrie)
  then show ?thesis
    by (simp add: ip Find_covering [OF ip] FindAll_covering [OF ip])
qed

text \<open>
  C3, amended: for every address text that parses and is covered by no registration,
  \<^verbatim>\<open>FindAll\<close> succeeds with the empty list, while \<^verbatim>\<open>Find\<close> fails with not-found.
\<close>

theorem FindAll_no_match:
  assumes "ParseIP net a = Some ip"
    and "\<forall>p. prefix p (bits (ipToBytes ip)) \<longrightarrow> registered (root t) p = None"
  shows "FindAll net t a = Inr [] \<and> Find net t a = Inl NoMatch"
proof -
  from assms(2) have "covering (root t) (bits (ipToBytes ip)) = []"
    by (simp add: covering_eq_Nil)
  then show ?thesis
    by (simp add: Find_covering [OF assms(1)] FindAll_covering [OF assms(1)])
qed

theorem FindAll_no_match_witness:
  "ParseIP exNet ''10.1.2.3'' = Some (v4InV6Prefix @ [10, 1, 2, 3]) \<and>
   \<not> (\<exists>p. prefix p (bits (ipToBytes (v4InV6Prefix @ [10, 1, 2, 3]))) \<and>
          registered (root (NewIPTrie :: string IPTrie)) p \<noteq> None) \<and>
   FindAll exNet (NewIPTrie :: string IPTrie) ''10.1.2.3'' = Inr [] \<and>
   Find exNet (NewIPTrie :: string IPTrie) ''10.1.2.3'' = Inl NoMatch"
  using FindAll_no_match [OF ex_ip_10_1, of "NewIPTrie :: string IPTrie"]
  by (simp add: ex_ip_10_1 registered_NewIPTrie)

text \<open>
  C4. \<^verbatim>\<open>Insert\<close> is claimed to return success on every CIDR text the parser accepts,
  with every byte index inside the address bytes. On \<^verbatim>\<open>::ffff:1.2.3.4/128\<close> the
  parser gives a 16-byte IPv4-mapped address and a 128-bit mask, \<^verbatim>\<open>ipToBytes\<close> cuts
  the address to 4 bytes, and the loop, which runs to 128, indexes byte 4 at \<open>i = 32\<close>:
  \<^verbatim>\<open>Insert\<close> panics. (\<open>Insert_in_range\<close> and \<open>Insert_out_of_range\<close> give the general
  rule: a parsed CIDR is inserted when its prefix length is at most eight times the
  length of \<open>ipBytes\<close>, and panics otherwise; by \<open>insertInRange_same_width\<close> the
  first is the case whenever the mask is no longer than \<open>ipBytes\<close>.)
\<close>

theorem Insert_mapped_CIDR_panics:
  "ParseCIDR exNet ''::ffff:1.2.3.4/128''
     = Some \<lparr>IP = v4InV6Prefix @ [1, 2, 3, 4], Mask = replicate 16 0xff\<rparr> \<and>
   ipToBytes (v4InV6Prefix @ [1, 2, 3, 4]) = [1, 2, 3, 4] \<and>
   Size (replicate 16 0xff) = (128, 128) \<and>
   bitAt [1, 2, 3, 4] 32 = None \<and>
   Insert exNet (NewIPTrie :: string IPTrie) ''::ffff:1.2.3.4/128'' wide = Inl Panic"
  using Insert_out_of_range [OF ex_cidr_mapped_128 ex_mapped_128_facts(4),
      of "NewIPTrie :: string IPTrie" wide]
  by (simp add: ex_cidr_mapped_128 ex_mapped_128_facts)

text \<open>
  C5. Insert(C) into a new trie followed by FindBest(A), for an address A inside C, is
  claimed to return C's metadata for any valid CIDR. For C = \<^verbatim>\<open>::ffff:10.0.0.0/104\<close> and
  A = \<^verbatim>\<open>::ffff:10.1.2.3\<close> (A masked with C's mask is C's address) the \<^verbatim>\<open>Insert\<close>
  panics, so the run never reaches the lookup. (\<open>Insert_then_Find\<close> proves the round trip
  for every parsed CIDR whose prefix length is within \<open>ipBytes\<close>.)
\<close>

theorem round_trip_mapped_CIDR_panics:
  "ParseCIDR exNet ''::ffff:10.0.0.0/104''
     = Some \<lparr>IP = v4InV6Prefix @ [10, 0, 0, 0], Mask = replicate 13 0xff @ [0, 0, 0]\<rparr> \<and>
   ParseIP exNet ''::ffff:10.1.2.3'' = Some (v4InV6Prefix @ [10, 1, 2, 3]) \<and>
   MaskIP (v4InV6Prefix @ [10, 1, 2, 3]) (replicate 13 0xff @ [0, 0, 0])
     = v4InV6Prefix @ [10, 0, 0, 0] \<and>
   Insert exNet (NewIPTrie :: string IPTrie) ''::ffff:10.0.0.0/104'' wide = Inl Panic \<and>
   run exNet (NewIPTrie :: string IPTrie)
     [OpInsert ''::ffff:10.0.0.0/104'' wide, OpFind ''::ffff:10.1.2.3''] = None"
  using Insert_out_of_range [OF ex_cidr_mapped_104 ex_mapped_104_facts(3),
      of "NewIPTrie :: string IPTrie" wide]
  by (simp add: ex_cidr_mapped_104 ex_mapped_104_facts)

text \<open>
  C6. \<^verbatim>\<open>Delete\<close> is claimed to return not-found exactly when the CIDR has no
  registration of its own bits and length. After \<^verbatim>\<open>Insert("1.2.3.0/32")\<close> the only
  registration has 32 bits; \<^verbatim>\<open>Delete("::ffff:1.2.3.4/120")\<close>, a CIDR of 120 bits,
  walks the 32 bits of the 4-byte form of its address along that path and then indexes
  byte 4: it panics instead of returning not-found. (\<open>Delete_not_found_iff\<close>,
  \<open>Delete_twice\<close> and \<open>Delete_then_Find\<close> prove the claim for every parsed CIDR whose
  walk stays within \<open>ipBytes\<close>.)
\<close>

theorem Delete_mapped_CIDR_panics:
  "run exNet NewIPTrie [OpInsert ''1.2.3.0/32'' wide]
     = Some (trieAfter exNet [OpInsert ''1.2.3.0/32'' wide]) \<and>
   registered (root (trieAfter exNet [OpInsert ''1.2.3.0/32'' wide])) q
     = (if q = [0,0,0,0,0,0,0,1, 0,0,0,0,0,0,1,0, 0,0,0,0,0,0,1,1, 0,0,0,0,0,0,0,0]
        then Some (''1.2.3.0/32'', wide) else None) \<and>
   ParseCIDR exNet ''::ffff:1.2.3.4/120''
     = Some \<lparr>IP = v4InV6Prefix @ [1, 2, 3, 0], Mask = replicate 15 0xff @ [0]\<rparr> \<and>
   Size (replicate 15 0xff @ [0]) = (120, 128) \<and>
   Delete exNet (trieAfter exNet [OpInsert ''1.2.3.0/32'' wide]) ''::ffff:1.2.3.4/120''
     = Inl Panic"
proof -
  let ?T = "trieAfter exNet [OpInsert ''1.2.3.0/32'' wide]"
  let ?p = "[0,0,0,0,0,0,0,1, 0,0,0,0,0,0,1,0, 0,0,0,0,0,0,1,1, 0,0,0,0,0,0,0,0] :: byte list"
  from Insert_in_range [OF ex_cidr_1_2_3_0 ex_mapped_120_facts(1), of NewIPTrie wide]
  obtain t1 where t1: "Insert exNet NewIPTrie ''1.2.3.0/32'' wide = Inr t1" by blast
  then have r: "run exNet NewIPTrie [OpInsert ''1.2.3.0/32'' wide] = Some t1" by simp
  then have T: "?T = t1" by (rule run_trieAfter)
  have reg: "registered (root ?T) q = (if q = ?p then Some (''1.2.3.0/32'', wide) else None)" for q
    unfolding T
    by (simp add: Insert_registered [OF t1 ex_cidr_1_2_3_0] ex_mapped_120_facts(2)
          registered_NewIPTrie)
  then have "walk (root ?T) ?p \<noteq> None" by (intro registered_walk) simp
  then have "Delete exNet ?T ''::ffff:1.2.3.4/120'' = Inl Panic"
    by (auto simp: Delete_out_of_range [OF ex_cidr_mapped_120 ex_mapped_120_facts(3)]
          ex_mapped_120_facts(4))
  with r T reg show ?thesis
    by (simp add: ex_cidr_mapped_120 ex_mapped_120_facts(5))
qed

text \<open>
  C7, as stated: a delete never changes the lookups of addresses covered by other,
  still registered prefixes. With \<^verbatim>\<open>10.0.0.0/8\<close> and \<^verbatim>\<open>10.1.0.0/16\<close> inserted, the
  address \<^verbatim>\<open>10.1.2.3\<close> is covered by the /8, which stays registered when the /16 is
  deleted, and \<^verbatim>\<open>Find("10.1.2.3")\<close> changes from the /16 to the /8.
\<close>

theorem Delete_changes_covered_lookup_counterexample:
  "Delete exNet
     (trieAfter exNet [OpInsert ''10.0.0.0/8'' wide, OpInsert ''10.1.0.0/16'' narrow])
     ''10.1.0.0/16''
     = Inr (trieAfter exNet [OpInsert ''10.0.0.0/8'' wide, OpInsert ''10.1.0.0/16'' narrow,
                             OpDelete ''10.1.0.0/16'']) \<and>
   registered
     (root (trieAfter exNet [OpInsert ''10.0.0.0/8'' wide, OpInsert ''10.1.0.0/16'' narrow,
                             OpDelete ''10.1.0.0/16'']))
     [0,0,0,0,1,0,1,0] = Some (''10.0.0.0/8'', wide) \<and>
   prefix [0,0,0,0,1,0,1,0] (bits (ipToBytes (v4InV6Prefix @ [10, 1, 2, 3]))) \<and>
   ParseIP exNet ''10.1.2.3'' = Some (v4InV6Prefix @ [10, 1, 2, 3]) \<and>
   Find exNet
     (trieAfter exNet [OpInsert ''10.0.0.0/8'' wide, OpInsert ''10.1.0.0/16'' narrow])
     ''10.1.2.3'' = Inr (''10.1.0.0/16'', narrow) \<and>
   Find exNet
     (trieAfter exNet [OpInsert ''10.0.0.0/8'' wide, OpInsert ''10.1.0.0/16'' narrow,
                       OpDelete ''10.1.0.0/16''])
     ''10.1.2.3'' = Inr (''10.0.0.0/8'', wide)"
  by (simp add: ex_nested ex_ip_10_1 ex_bits_10 Find_covering [OF ex_ip_10_1] covering_prefixes)

text \<open>
  C7, amended: a \<^verbatim>\<open>Delete\<close> that succeeds leaves every registration other than the
  deleted one as it was, and leaves \<^verbatim>\<open>Find\<close> and \<^verbatim>\<open>FindAll\<close> unchanged for every
  address whose bits do not start with the bits of the deleted prefix, whatever leading
  bits the prefixes covering the address share with the deleted one.
\<close>

theorem Delete_preserves_other_lookups:
  assumes "Delete net t c = Inr t'" and "ParseCIDR net c = Some ipnet"
  shows "(\<forall>q. q \<noteq> deleteBits ipnet \<longrightarrow> registered (root t') q = registered (root t) q) \<and>
         (\<forall>a ip. ParseIP net a = Some ip \<longrightarrow> \<not> prefix (deleteBits ipnet) (bits (ipToBytes ip))
            \<longrightarrow> Find net t' a = Find net t a \<and> FindAll net t' a = FindAll net t a)"
  using assms by (rule Delete_frame)

text \<open>
  Deleting \<^verbatim>\<open>10.1.0.0/16\<close> leaves the lookups of \<^verbatim>\<open>10.2.3.4\<close>, covered by
  \<^verbatim>\<open>10.0.0.0/8\<close> only, as they were.
\<close>

theorem Delete_preserves_other_lookups_witness:
  "Delete exNet
     (trieAfter exNet [OpInsert ''10.0.0.0/8'' wide, OpInsert ''10.1.0.0/16'' narrow])
     ''10.1.0.0/16''
     = Inr (trieAfter exNet [OpInsert ''10.0.0.0/8'' wide, OpInsert ''10.1.0.0/16'' narrow,
                             OpDelete ''10.1.0.0/16'']) \<and>
   ParseCIDR exNet ''10.1.0.0/16'' = Some \<lparr>IP = [10, 1, 0, 0], Mask = [255, 255, 0, 0]\<rparr> \<and>
   ParseIP exNet ''10.2.3.4'' = Some (v4InV6Prefix @ [10, 2, 3, 4]) \<and>
   \<not> prefix (deleteBits \<lparr>IP = [10, 1, 0, 0], Mask = [255, 255, 0, 0]\<rparr>)
        (bits (ipToBytes (v4InV6Prefix @ [10, 2, 3, 4]))) \<and>
   Find exNet
     (trieAfter exNet [OpInsert ''10.0.0.0/8'' wide, OpInsert ''10.1.0.0/16'' narrow,
                       OpDelete ''10.1.0.0/16''])
     ''10.2.3.4''
     = Find exNet
         (trieAfter exNet [OpInsert ''10.0.0.0/8'' wide, OpInsert ''10.1.0.0/16'' narrow])
         ''10.2.3.4'' \<and>
   FindAll exNet
     (trieAfter exNet [OpInsert ''10.0.0.0/8'' wide, OpInsert ''10.1.0.0/16'' narrow,
                       OpDelete ''10.1.0.0/16''])
     ''10.2.3.4''
     = FindAll exNet
         (trieAfter exNet [OpInsert ''10.0.0.0/8'' wide, OpInsert ''10.1.0.0/16'' narrow])
         ''10.2.3.4'' \<and>
   Find exNet
     (trieAfter exNet [OpInsert ''10.0.0.0/8'' wide, OpInsert ''10.1.0.0/16'' narrow])
     ''10.2.3.4'' = Inr (''10.0.0.0/8'', wide)"
proof -
  let ?T2 = "trieAfter exNet [OpInsert ''10.0.0.0/8'' wide, OpInsert ''10.1.0.0/16'' narrow]"
  let ?T3 = "trieAfter exNet [OpInsert ''10.0.0.0/8'' wide, OpInsert ''10.1.0.0/16'' narrow,
                              OpDelete ''10.1.0.0/16'']"
  have np: "\<not> prefix (deleteBits \<lparr>IP = [10, 1, 0, 0], Mask = [255, 255, 0, 0]\<rparr>)
               (bits (ipToBytes (v4InV6Prefix @ [10, 2, 3, 4])))"
    by (simp add: ex_10_facts ex_bits_10)
  have f: "Find exNet ?T2 ''10.2.3.4'' = Inr (''10.0.0.0/8'', wide)"
    by (simp add: ex_nested ex_bits_10 Find_covering [OF ex_ip_10_2] covering_prefixes)
  from Delete_preserves_other_lookups [OF ex_nested(3) ex_cidr_10_16] ex_ip_10_2 np
  have "Find exNet ?T3 ''10.2.3.4'' = Find exNet ?T2 ''10.2.3.4''"
    and "FindAll exNet ?T3 ''10.2.3.4'' = FindAll exNet ?T2 ''10.2.3.4''"
    by blast+
  with np f ex_nested(3) ex_cidr_10_16 ex_ip_10_2 show ?thesis by simp
qed

text \<open>
  C8, as stated: in every reachable trie no node is childless and unregistered. The
  root of a new trie, reached by the empty run, has no children and is not an end.
\<close>

theorem childless_root_counterexample:
  "run exNet (NewIPTrie :: string IPTrie) [] = Some NewIPTrie \<and>
   walk (root (NewIPTrie :: string IPTrie)) [] = Some (root NewIPTrie) \<and>
   children (root (NewIPTrie :: string IPTrie)) = Map.empty \<and>
   \<not> isEnd (root (NewIPTrie :: string IPTrie))"
  by (simp add: NewIPTrie_def newNode_def)

text \<open>
  C8, amended: in every trie reached from a new trie by a run of \<^verbatim>\<open>Insert\<close>,
  \<^verbatim>\<open>Find\<close>, \<^verbatim>\<open>FindAll\<close> and \<^verbatim>\<open>Delete\<close> calls that all return, every node other
  than the root (every node at a non-empty path) that has no children is an end.
\<close>

theorem reachable_pruned_below_root:
  assumes "run net NewIPTrie ops = Some t"
    and "walk (root t) p = Some m" and "p \<noteq> []" and "children m = Map.empty"
  shows "isEnd m"
proof -
  have "pruned (root (NewIPTrie :: 'a IPTrie))"
    by (simp add: NewIPTrie_def pruned_newNode)
  from run_pruned [OF assms(1) this] assms(2,3) have "live m"
    unfolding pruned_def by blast
  with assms(4) show ?thesis by (simp add: live_def)
qed

text \<open>
  After inserting \<^verbatim>\<open>128.0.0.0/1\<close> and \<^verbatim>\<open>192.0.0.0/2\<close>, a lookup, and deleting the
  /2, the node of the /2 is gone and the node of the /1 is childless and an end.
\<close>

theorem reachable_pruned_below_root_witness:
  "run exNet NewIPTrie
     [OpInsert ''128.0.0.0/1'' wide, OpInsert ''192.0.0.0/2'' narrow, OpFind ''10.1.2.3'',
      OpDelete ''192.0.0.0/2'']
   = Some \<lparr>root = Node [1 \<mapsto> Node Map.empty True wide ''128.0.0.0/1''] False Map.empty []\<rparr> \<and>
   walk (root \<lparr>root = Node [1 \<mapsto> Node Map.empty True wide ''128.0.0.0/1''] False Map.empty []\<rparr>)
     [1] = Some (Node Map.empty True wide ''128.0.0.0/1'') \<and>
   [1 :: byte] \<noteq> [] \<and>
   children (Node Map.empty True wide ''128.0.0.0/1'') = Map.empty \<and>
   isEnd (Node Map.empty True wide ''128.0.0.0/1'')"
proof -
  have w: "walk (root \<lparr>root = Node [1 \<mapsto> Node Map.empty True wide ''128.0.0.0/1''] False Map.empty []\<rparr>)
             [1] = Some (Node Map.empty True wide ''128.0.0.0/1'')"
    by simp
  have ne: "[1 :: byte] \<noteq> []" by simp
  have ch: "children (Node Map.empty True wide ''128.0.0.0/1'') = Map.empty" by simp
  from reachable_pruned_below_root [OF ex_short_run w ne ch]
  have "isEnd (Node Map.empty True wide ''128.0.0.0/1'')" .
  with w ne ch show ?thesis by (intro conjI ex_short_run)
qed

text \<open>
  C9. IPv4 and IPv6 entries share one trie without tags: after a successful
  \<^verbatim>\<open>Insert\<close> of an IPv4 CIDR of prefix length \<open>L\<close> (a 4-byte address under a 32-bit
  mask), a lookup of an IPv6 address (16 bytes, not IPv4-mapped) whose first \<open>L\<close> bits
  are those of the prefix finds, at those \<open>L\<close> bits, the node the insert registered:
  \<^verbatim>\<open>FindAll\<close> reports the IPv4 entry and \<^verbatim>\<open>Find\<close> succeeds.
\<close>

theorem shared_trie_across_families:
  assumes "ParseCIDR net c = Some ipnet" and "length (IP ipnet) = 4"
    and "Size (Mask ipnet) = (L, 32)"
    and "Insert net t c md = Inr t'"
    and "ParseIP net a = Some ip" and "length ip = 16" and "To4 ip = None"
    and "take L (bits ip) = take L (bits (IP ipnet))"
  shows "registered (root t') (take L (bits (IP ipnet))) = Some (c, md) \<and>
         registered (root t') (take L (bits (ipToBytes ip))) = Some (c, md) \<and>
         (\<exists>ms. FindAll net t' a = Inr ms \<and> (c, md) \<in> set ms) \<and>
         (\<exists>r. Find net t' a = Inr r)"
  using assms by (rule Insert_shared_node)

text \<open>\<^verbatim>\<open>10.0.0.0/8\<close> is reported for the IPv6 address \<^verbatim>\<open>a00::1\<close>.\<close>

theorem shared_trie_across_families_witness:
  "ParseCIDR exNet ''10.0.0.0/8'' = Some \<lparr>IP = [10, 0, 0, 0], Mask = [255, 0, 0, 0]\<rparr> \<and>
   length (IP \<lparr>IP = [10, 0, 0, 0], Mask = [255, 0, 0, 0]\<rparr>) = 4 \<and>
   Size (Mask \<lparr>IP = [10, 0, 0, 0], Mask = [255, 0, 0, 0]\<rparr>) = (8, 32) \<and>
   Insert exNet NewIPTrie ''10.0.0.0/8'' wide
     = Inr (trieAfter exNet [OpInsert ''10.0.0.0/8'' wide]) \<and>
   ParseIP exNet ''a00::1'' = Some [0x0a, 0, 0, 0, 0, 0, 0, 0, 0, 0, 0, 0, 0, 0, 0, 1] \<and>
   length [0x0a, 0, 0, 0, 0, 0, 0, 0, 0, 0, 0, 0, 0, 0, 0, 1 :: byte] = 16 \<and>
   To4 [0x0a, 0, 0, 0, 0, 0, 0, 0, 0, 0, 0, 0, 0, 0, 0, 1] = None \<and>
   take 8 (bits [0x0a, 0, 0, 0, 0, 0, 0, 0, 0, 0, 0, 0, 0, 0, 0, 1])
     = take 8 (bits (IP \<lparr>IP = [10, 0, 0, 0], Mask = [255, 0, 0, 0]\<rparr>)) \<and>
   registered (root (trieAfter exNet [OpInsert ''10.0.0.0/8'' wide]))
     (take 8 (bits (ipToBytes [0x0a, 0, 0, 0, 0, 0, 0, 0, 0, 0, 0, 0, 0, 0, 0, 1])))
     = Some (''10.0.0.0/8'', wide) \<and>
   FindAll exNet (trieAfter exNet [OpInsert ''10.0.0.0/8'' wide]) ''a00::1''
     = Inr [(''10.0.0.0/8'', wide)] \<and>
   (\<exists>r. Find exNet (trieAfter exNet [OpInsert ''10.0.0.0/8'' wide]) ''a00::1'' = Inr r)"
proof -
  let ?ipnet = "\<lparr>IP = [10, 0, 0, 0], Mask = [255, 0, 0, 0]\<rparr>"
  let ?ip = "[0x0a, 0, 0, 0, 0, 0, 0, 0, 0, 0, 0, 0, 0, 0, 0, 1] :: byte list"
  have h2: "length (IP ?ipnet) = 4" by simp
  have h3: "Size (Mask ?ipnet) = (8, 32)" by (simp add: ex_a00_facts)
  have h6: "length ?ip = 16" by simp
  have h8: "take 8 (bits ?ip) = take 8 (bits (IP ?ipnet))" by (simp add: ex_a00_facts(3))
  from shared_trie_across_families
         [OF ex_cidr_10_8 h2 h3 ex_ten(1) ex_ip_a00 h6 ex_a00_facts(1) h8]
  have "registered (root (trieAfter exNet [OpInsert ''10.0.0.0/8'' wide]))
          (take 8 (bits (ipToBytes ?ip))) = Some (''10.0.0.0/8'', wide)"
    and "\<exists>r. Find exNet (trieAfter exNet [OpInsert ''10.0.0.0/8'' wide]) ''a00::1'' = Inr r"
    by blast+
  with h2 h3 h6 h8 show ?thesis
    by (intro conjI ex_cidr_10_8 ex_ten(1) ex_ip_a00 ex_a00_facts(1) ex_ten_FindAll)
qed

text \<open>
  C10. For every address text and every trie: \<^verbatim>\<open>Find\<close> succeeds exactly when
  \<^verbatim>\<open>FindAll\<close> returns a non-empty list, both fail with the invalid-address error on a
  text that does not parse, and a result of \<^verbatim>\<open>Find\<close> is the last element of the list
  \<^verbatim>\<open>FindAll\<close> returns.
\<close>

theorem Find_FindAll_agree:
  "((\<exists>r. Find net t a = Inr r) \<longleftrightarrow> (\<exists>ms. FindAll net t a = Inr ms \<and> ms \<noteq> [])) \<and>
   (ParseIP net a = None \<longrightarrow> Find net t a = Inl InvalidIP \<and> FindAll net t a = Inl InvalidIP) \<and>
   (\<forall>r. Find net t a = Inr r \<longrightarrow> (\<exists>ms. FindAll net t a = Inr ms \<and> ms \<noteq> [] \<and> last ms = r))"
proof (cases "ParseIP net a")
  case None
  then show ?thesis by (simp add: Find_def FindAll_def)
next
  case (Some ip)
  then show ?thesis
    by (auto simp: Find_covering [OF Some] FindAll_covering [OF Some] split: if_splits)
qed

theorem Find_FindAll_agree_witness:
  "FindAll exNet
     (trieAfter exNet [OpInsert ''192.168.0.0/16'' wide, OpInsert ''192.168.1.0/24'' narrow])
     ''192.168.1.100'' = Inr [(''192.168.0.0/16'', wide), (''192.168.1.0/24'', narrow)] \<and>
   Find exNet
     (trieAfter exNet [OpInsert ''192.168.0.0/16'' wide, OpInsert ''192.168.1.0/24'' narrow])
     ''192.168.1.100'' = Inr (''192.168.1.0/24'', narrow) \<and>
   ParseIP exNet ''bogus'' = None \<and>
   Find exNet (NewIPTrie :: string IPTrie) ''bogus'' = Inl InvalidIP \<and>
   FindAll exNet (NewIPTrie :: string IPTrie) ''bogus'' = Inl InvalidIP"
proof -
  let ?T = "trieAfter exNet [OpInsert ''192.168.0.0/16'' wide, OpInsert ''192.168.1.0/24'' narrow]"
  have all: "FindAll exNet ?T ''192.168.1.100''
               = Inr [(''192.168.0.0/16'', wide), (''192.168.1.0/24'', narrow)]"
    by (simp add: FindAll_covering [OF ex_ip_192] ex_bytes_192 ex_bits_192 ex_overlap_covering)
  from Find_FindAll_agree [of exNet ?T "''192.168.1.100''"] all
  obtain r where r: "Find exNet ?T ''192.168.1.100'' = Inr r" by auto
  with Find_FindAll_agree [of exNet ?T "''192.168.1.100''"] all
  have "r = (''192.168.1.0/24'', narrow)" by auto
  with r all ex_ip_bogus Find_FindAll_agree [of exNet "NewIPTrie :: string IPTrie" "''bogus''"]
  show ?thesis by simp
qed

end
